theory Spec2Isabelle
  imports Main
begin

section \<open>Errors (errors.go)\<close>

text \<open>
  The sentinel errors of errors.go. The code wraps a sentinel with \<^verbatim>\<open>fmt.Errorf("%w ...")\<close>;
  the string carried by a constructor is the name (flag, argument, command path or token) that
  the wrapping message mentions. \<open>ErrOther\<close> stands for every error that is not a sentinel:
  the messages built by \<^verbatim>\<open>fmt.Errorf\<close> without \<^verbatim>\<open>%w\<close>, and the errors returned by Value
  converters, validators and actions.
\<close>

datatype error =
    ErrUnknownLongFlag string
  | ErrUnknownShortFlag string
  | ErrExpectedFlagArgument string
  | ErrCommandNotSpecified
  | ErrSubCommandRequired string
  | ErrRequiredArgument string
  | ErrRequiredFlag string
  | ErrExpectedKnownCommand string
  | ErrFlagCannotRepeat string
  | ErrUnexpectedArgument string
  | ErrOther string

section \<open>Typed storage and Value converters\<close>

text \<open>
  A clause owns a Value converter that writes into a Go variable. The variables live in a
  store indexed by address, so that two clauses bound to the same variable alias each other
  as they do in the program.
\<close>

type_synonym addr = nat

datatype val = VString string | VStrings "string list" | VBool bool

text \<open>
  The Value interface as the code under src/ uses it: \<^verbatim>\<open>Set(string) error\<close>,
  \<^verbatim>\<open>String() string\<close>, and the capability probes \<^verbatim>\<open>IsBoolFlag\<close>,
  \<^verbatim>\<open>BoolFlagIsNegatable\<close> (model.go) and \<^verbatim>\<open>IsCumulative\<close> (app.go, setValues).
  A probe that the Go type does not implement reads as False here.
\<close>

record Value =
  Set_v :: "val \<Rightarrow> string \<Rightarrow> error + val"
  String_v :: "val \<Rightarrow> string"
  IsBoolFlag :: bool
  BoolFlagIsNegatable :: bool
  IsCumulative :: bool

text \<open>
  What a callback (Action, validator) can do: return nil, return an error, or end the process
  through the termination handler. It sees and changes the variables, never the trace.
\<close>

datatype cbres = CbOk | CbErr error | CbExit int

type_synonym Action = "(addr \<Rightarrow> val) \<Rightarrow> cbres \<times> (addr \<Rightarrow> val)"

section \<open>Clauses, parse elements and the parse context\<close>

text \<open>
  FlagClause and ArgClause share the fields the resolution pipeline reads (they embed the same
  mixins in the Go code), so one record serves both; the element constructor says which of
  the two a clause is. \<open>ptr\<close> is the clause's address: app.go compares clauses by pointer
  in maybeHelp and by name in setDefaults, validateRequired and setValues. \<open>shorthand\<close> is
  the rune as a string, empty for the rune 0.
\<close>

record Clause =
  ptr :: nat
  name :: string
  shorthand :: string
  required :: bool
  defaultValues :: "string list"
  envar :: string
  cvalue :: Value
  target :: addr
  preActions :: "Action list"
  actions :: "Action list"

text \<open>
  A command: its own flags (in flagOrder), arguments and subcommands (commandOrder).
  \<open>cmd_parents\<close> holds the names met by following the parent pointers, root first.
\<close>

datatype CmdClause = CmdClause
  (cmd_ptr: nat)
  (cmd_name: string)
  (cmd_parents: "string list")
  (cmd_flagOrder: "Clause list")
  (cmd_args: "Clause list")
  (cmd_commands: "CmdClause list")
  (cmd_validator: "Action option")
  (cmd_preActions: "Action list")
  (cmd_actions: "Action list")

text \<open>
  ParseElement: the matched clause and the raw string. The code keeps the string behind a
  pointer that is nil for a command and dereferences it for a flag or an argument; the
  constructors carry the string exactly where the code reads it.
\<close>

datatype element =
    EFlag Clause string
  | EArg Clause string
  | ECmd CmdClause

text \<open>
  The events of one run, in the order they happen: every call the pipeline makes to a Value
  converter, to the needsValue probe, to a callback, and every write of usage or completion
  text and call of the termination handler.
\<close>

datatype event =
    EvSetDefault string string
  | EvSetValue string string
  | EvPreAction string
  | EvNeedsValue string
  | EvValidator string
  | EvAction string
  | EvUsage
  | EvCompletion
  | EvTerminate int

record state =
  store :: "addr \<Rightarrow> val"
  trace :: "event list"

text \<open>
  The part of ParseContext the pipeline reads. \<open>EOL\<close> and \<open>Peek\<close> are the results of the
  methods of the same name once parsing stopped.
\<close>

record ParseContext =
  Elements :: "element list"
  arguments :: "Clause list"
  EOL :: bool
  Peek :: string
  rawArgs :: "string list"

section \<open>Helpers of the missing files\<close>

text \<open>\<^verbatim>\<open>strings.Join\<close> of the Go library.\<close>

fun join :: "string \<Rightarrow> string list \<Rightarrow> string" where
  "join sep [] = []"
| "join sep [x] = x"
| "join sep (x # y # ys) = x @ sep @ join sep (y # ys)"

text \<open>
  Modelled from the spec: CmdClause.FullCommand (cmd.go is not under src/): the
  space-joined path of command names from the root to the command.
\<close>

definition FullCommand :: "CmdClause \<Rightarrow> string" where
  "FullCommand c = join '' '' (cmd_parents c @ [cmd_name c])"

definition logEv :: "event \<Rightarrow> state \<Rightarrow> state" where
  "logEv e s = s\<lparr>trace := trace s @ [e]\<rparr>"

text \<open>One call of \<^verbatim>\<open>clause.value.Set(raw)\<close>: the converter reads and writes the clause's variable.\<close>

definition callSet :: "event \<Rightarrow> Clause \<Rightarrow> string \<Rightarrow> state \<Rightarrow> error option \<times> state" where
  "callSet ev c raw s =
     (case Set_v (cvalue c) (store s (target c)) raw of
        Inl e \<Rightarrow> (Some e, logEv ev s)
      | Inr v \<Rightarrow> (None, logEv ev (s\<lparr>store := (store s)(target c := v)\<rparr>)))"

section \<open>Application.setValues (app.go)\<close>

text \<open>
  The loop of setValues over context.Elements, with its three locals: flagSet (the names of
  the flags already set), selected and lastCmd. The result is the pair of named results
  (selected, err); an error of a converter returns the names selected so far, as the bare
  \<^verbatim>\<open>return\<close> of the code does.
\<close>

fun setValues_loop ::
  "element list \<Rightarrow> string set \<Rightarrow> string list \<Rightarrow> CmdClause option \<Rightarrow> state
     \<Rightarrow> (string list \<times> error option) \<times> state" where
  "setValues_loop [] flagSet selected lastCmd s =
     (case lastCmd of
        None \<Rightarrow> ((selected, None), s)
      | Some c \<Rightarrow>
          if length (cmd_commands c) > 0
          then (([], Some (ErrSubCommandRequired (FullCommand c))), s)
          else ((selected, None), s))"
| "setValues_loop (EFlag clause v # es) flagSet selected lastCmd s =
     (if name clause \<in> flagSet \<and> \<not> IsCumulative (cvalue clause)
      then (([], Some (ErrFlagCannotRepeat (name clause))), s)
      else (case callSet (EvSetValue (name clause) v) clause v s of
              (Some e, s') \<Rightarrow> ((selected, Some e), s')
            | (None, s') \<Rightarrow> setValues_loop es (insert (name clause) flagSet) selected lastCmd s'))"
| "setValues_loop (EArg clause v # es) flagSet selected lastCmd s =
     (case callSet (EvSetValue (name clause) v) clause v s of
        (Some e, s') \<Rightarrow> ((selected, Some e), s')
      | (None, s') \<Rightarrow> setValues_loop es flagSet selected lastCmd s')"
| "setValues_loop (ECmd clause # es) flagSet selected lastCmd s =
     setValues_loop es flagSet (selected @ [cmd_name clause]) (Some clause) s"

definition setValues :: "ParseContext \<Rightarrow> state \<Rightarrow> (string list \<times> error option) \<times> state" where
  "setValues context s = setValues_loop (Elements context) {} [] None s"

section \<open>Defaults and the needs-a-value probe\<close>

text \<open>\<^verbatim>\<open>os.Getenv\<close>: the empty string for a variable that is not set.\<close>

type_synonym env = "string \<Rightarrow> string"

text \<open>
  Modelled from the spec: HasEnvarValue (envar.go is not under src/): the clause is bound to
  an environment variable and the lookup gives a value.
\<close>

definition HasEnvarValue :: "env \<Rightarrow> Clause \<Rightarrow> bool" where
  "HasEnvarValue getenv c \<longleftrightarrow> envar c \<noteq> [] \<and> getenv (envar c) \<noteq> []"

text \<open>
  The pieces of a string between its line ends: \<open>splitLines cur rest\<close> splits \<open>rest\<close>,
  \<open>cur\<close> being the piece read so far. A line end is \<^verbatim>\<open>\n\<close> or \<^verbatim>\<open>\r\n\<close>: a carriage
  return is dropped only where a newline follows it.
\<close>

definition dropCR :: "string \<Rightarrow> string" where
  "dropCR l = (if l \<noteq> [] \<and> last l = CHR 0x0D then butlast l else l)"

fun splitLines :: "string \<Rightarrow> string \<Rightarrow> string list" where
  "splitLines cur [] = [cur]"
| "splitLines cur (c # cs) =
     (if c = CHR 0x0A then dropCR cur # splitLines [] cs else splitLines (cur @ [c]) cs)"

definition dropLastEmpty :: "string list \<Rightarrow> string list" where
  "dropLastEmpty ls = (if ls \<noteq> [] \<and> last ls = [] then butlast ls else ls)"

text \<open>
  Modelled from the spec: GetSplitEnvarValue (envar.go is not under src/): the value of the
  variable split on \<^verbatim>\<open>\n\<close> or \<^verbatim>\<open>\r\n\<close> into its lines. An empty line between two line ends
  is a value like any other; the line end that closes the whole value starts no further
  value, as TestFlagMultipleValuesDefaultEnvarUnix and TestFlagMultipleValuesDefaultEnvarWindows
  have it.
\<close>

definition GetSplitEnvarValue :: "env \<Rightarrow> Clause \<Rightarrow> string list" where
  "GetSplitEnvarValue getenv c =
     (if getenv (envar c) = [] then [] else dropLastEmpty (splitLines [] (getenv (envar c))))"

text \<open>The converter called once for each string of a list, stopping at the first error.\<close>

fun setEach :: "Clause \<Rightarrow> string list \<Rightarrow> state \<Rightarrow> error option \<times> state" where
  "setEach c [] s = (None, s)"
| "setEach c (v # vs) s =
     (case callSet (EvSetDefault (name c) v) c v s of
        (Some e, s') \<Rightarrow> (Some e, s')
      | (None, s') \<Rightarrow> setEach c vs s')"

text \<open>
  Modelled from the spec: FlagClause.setDefault and ArgClause.setDefault (flags.go and args.go
  are not under src/): the default-resolution of a clause that received no element. The
  sources are the explicit default strings and the bound environment variable, the latter
  split into several values for a cumulative clause; a clause with neither is left as it is.
  When both are present the variable wins, as TestEnvarOverrideDefault (under src/) has it.
\<close>

definition setDefault :: "env \<Rightarrow> Clause \<Rightarrow> state \<Rightarrow> error option \<times> state" where
  "setDefault getenv c s =
     (if HasEnvarValue getenv c then
        (if IsCumulative (cvalue c) then setEach c (GetSplitEnvarValue getenv c) s
         else setEach c [getenv (envar c)] s)
      else setEach c (defaultValues c) s)"

text \<open>
  Modelled from the spec: needsValue (flags.go and args.go are not under src/): a required
  clause that neither an explicit default nor the environment variable satisfies.
\<close>

definition needsValue :: "env \<Rightarrow> Clause \<Rightarrow> bool" where
  "needsValue getenv c \<longleftrightarrow> required c \<and> \<not> (defaultValues c \<noteq> [] \<or> HasEnvarValue getenv c)"

section \<open>Application.setDefaults and Application.validateRequired (app.go)\<close>

text \<open>The keys of the maps flagElements and argElements that both passes build first.\<close>

fun flagElements :: "element list \<Rightarrow> string list" where
  "flagElements [] = []"
| "flagElements (EFlag c v # es) = name c # flagElements es"
| "flagElements (e # es) = flagElements es"

fun argElements :: "element list \<Rightarrow> string list" where
  "argElements [] = []"
| "argElements (EArg c v # es) = name c # argElements es"
| "argElements (e # es) = argElements es"

text \<open>
  The two loops of setDefaults that call setDefault. The first ranges over the Go map
  context.flags.long, whose iteration order the language leaves open: the list \<open>fs\<close> is the
  sequence of flags in the order this run visits them. The second ranges over the slice
  context.arguments.args.
\<close>

fun setDefaults_loop :: "env \<Rightarrow> string list \<Rightarrow> Clause list \<Rightarrow> state \<Rightarrow> error option \<times> state" where
  "setDefaults_loop getenv matched [] s = (None, s)"
| "setDefaults_loop getenv matched (c # cs) s =
     (if name c \<in> set matched then setDefaults_loop getenv matched cs s
      else (case setDefault getenv c s of
              (Some e, s') \<Rightarrow> (Some e, s')
            | (None, s') \<Rightarrow> setDefaults_loop getenv matched cs s'))"

definition setDefaults :: "env \<Rightarrow> Clause list \<Rightarrow> ParseContext \<Rightarrow> state \<Rightarrow> error option \<times> state" where
  "setDefaults getenv fs context s =
     (if ''help'' \<in> set (flagElements (Elements context)) then (None, s)
      else (case setDefaults_loop getenv (flagElements (Elements context)) fs s of
              (Some e, s') \<Rightarrow> (Some e, s')
            | (None, s') \<Rightarrow>
                setDefaults_loop getenv (argElements (Elements context)) (arguments context) s'))"

text \<open>
  The loops of validateRequired; \<open>mk\<close> is the sentinel the loop wraps (ErrRequiredFlag for
  the flags, ErrRequiredArgument for the arguments).
\<close>

fun validateRequired_loop ::
  "env \<Rightarrow> (string \<Rightarrow> error) \<Rightarrow> string list \<Rightarrow> Clause list \<Rightarrow> state \<Rightarrow> error option \<times> state" where
  "validateRequired_loop getenv mk matched [] s = (None, s)"
| "validateRequired_loop getenv mk matched (c # cs) s =
     (if name c \<in> set matched then validateRequired_loop getenv mk matched cs s
      else if needsValue getenv c then (Some (mk (name c)), logEv (EvNeedsValue (name c)) s)
      else validateRequired_loop getenv mk matched cs (logEv (EvNeedsValue (name c)) s))"

definition validateRequired :: "env \<Rightarrow> Clause list \<Rightarrow> ParseContext \<Rightarrow> state \<Rightarrow> error option \<times> state" where
  "validateRequired getenv fs context s =
     (case validateRequired_loop getenv ErrRequiredFlag (flagElements (Elements context)) fs s of
        (Some e, s') \<Rightarrow> (Some e, s')
      | (None, s') \<Rightarrow>
          validateRequired_loop getenv ErrRequiredArgument
            (argElements (Elements context)) (arguments context) s')"

section \<open>Callbacks\<close>

definition runCb :: "event \<Rightarrow> Action \<Rightarrow> state \<Rightarrow> cbres \<times> state" where
  "runCb ev f s = (case f (store s) of (r, st) \<Rightarrow> (r, logEv ev (s\<lparr>store := st\<rparr>)))"

text \<open>
  Modelled from the spec: actionMixin.applyActions and actionMixin.applyPreActions (actions.go
  is not under src/): the callbacks of one owner in registration order, the first error
  aborting.
\<close>

fun runAll :: "event \<Rightarrow> Action list \<Rightarrow> state \<Rightarrow> cbres \<times> state" where
  "runAll ev [] s = (CbOk, s)"
| "runAll ev (f # fs) s =
     (case runCb ev f s of
        (CbOk, s') \<Rightarrow> runAll ev fs s'
      | (r, s') \<Rightarrow> (r, s'))"

fun elemName :: "element \<Rightarrow> string" where
  "elemName (EFlag c v) = name c"
| "elemName (EArg c v) = name c"
| "elemName (ECmd c) = cmd_name c"

fun elemPreActions :: "element \<Rightarrow> Action list" where
  "elemPreActions (EFlag c v) = preActions c"
| "elemPreActions (EArg c v) = preActions c"
| "elemPreActions (ECmd c) = cmd_preActions c"

fun elemActions :: "element \<Rightarrow> Action list" where
  "elemActions (EFlag c v) = actions c"
| "elemActions (EArg c v) = actions c"
| "elemActions (ECmd c) = cmd_actions c"

section \<open>The Application\<close>

text \<open>
  The fields of Application that Parse, execute and init read. \<open>completion_addr\<close> is the
  address of the field \<^verbatim>\<open>completion\<close>, which New binds to the flag completion-bash.
  \<open>terminateExits\<close> says whether the termination handler ends the process (os.Exit, the
  default) or returns (the no-op that Terminate(nil) installs). \<open>app_commands\<close> is
  commandOrder; cmdGroup.have() is its being non-empty.
\<close>

record Application =
  initialized :: bool
  app_Name :: string
  noInterspersed :: bool
  completion_addr :: addr
  HelpFlag :: Clause
  app_validator :: "Action option"
  app_preActions :: "Action list"
  app_actions :: "Action list"
  terminateExits :: bool
  app_flagOrder :: "Clause list"
  app_args :: "Clause list"
  app_commands :: "CmdClause list"

definition completion :: "Application \<Rightarrow> state \<Rightarrow> bool" where
  "completion a s \<longleftrightarrow> store s (completion_addr a) = VBool True"

definition callTerminate :: "Application \<Rightarrow> int \<Rightarrow> state \<Rightarrow> cbres \<times> state" where
  "callTerminate a status s =
     (if terminateExits a then CbExit status else CbOk, logEv (EvTerminate status) s)"

text \<open>
  writeUsage with a nil error, the only way app.go calls it from Parse: the usage text is
  written, then the termination handler is called with status 0.
\<close>

definition writeUsage :: "Application \<Rightarrow> state \<Rightarrow> cbres \<times> state" where
  "writeUsage a s = callTerminate a 0 (logEv EvUsage s)"

text \<open>
  The method \<^verbatim>\<open>a.parseContext(ignoreDefault, args)\<close> of app.go as the pipeline sees it: a
  function from the flag and the arguments that returns the context (nil when init fails)
  and the error of the parser, and that may write the variables: the tokenizer and the
  parser it runs are not under src/. The definition \<open>parseContext\<close> below builds such a
  function from init and a parser.
\<close>

type_synonym reparse =
  "bool \<Rightarrow> string list \<Rightarrow> (addr \<Rightarrow> val) \<Rightarrow> (ParseContext option \<times> error option) \<times> (addr \<Rightarrow> val)"

text \<open>
  maybeHelp: for each element that is the help flag (compared by pointer), the command line
  is parsed again by \<^verbatim>\<open>a.parseContext(true, context.rawArgs)\<close> (\<open>pcx\<close>), and the usage is
  written for the context this gives. The new context goes to the usage text only; what
  the second parse wrote into the variables stays.
\<close>

fun maybeHelp :: "Application \<Rightarrow> reparse \<Rightarrow> string list \<Rightarrow> element list \<Rightarrow> state \<Rightarrow> cbres \<times> state" where
  "maybeHelp a pcx raw [] s = (CbOk, s)"
| "maybeHelp a pcx raw (EFlag flag v # es) s =
     (if ptr flag = ptr (HelpFlag a)
      then (case pcx True raw (store s) of
              (r, st) \<Rightarrow>
                (case writeUsage a (s\<lparr>store := st\<rparr>) of
                   (CbOk, s') \<Rightarrow> maybeHelp a pcx raw es s'
                 | (r, s') \<Rightarrow> (r, s')))
      else maybeHelp a pcx raw es s)"
| "maybeHelp a pcx raw (e # es) s = maybeHelp a pcx raw es s"

section \<open>applyValidators, applyPreActions, applyActions (app.go)\<close>

fun applyValidators_loop :: "element list \<Rightarrow> state \<Rightarrow> cbres \<times> state" where
  "applyValidators_loop [] s = (CbOk, s)"
| "applyValidators_loop (ECmd cmd # es) s =
     (case cmd_validator cmd of
        None \<Rightarrow> applyValidators_loop es s
      | Some f \<Rightarrow>
          (case runCb (EvValidator (cmd_name cmd)) f s of
             (CbOk, s') \<Rightarrow> applyValidators_loop es s'
           | (r, s') \<Rightarrow> (r, s')))"
| "applyValidators_loop (e # es) s = applyValidators_loop es s"

definition applyValidators :: "Application \<Rightarrow> ParseContext \<Rightarrow> state \<Rightarrow> cbres \<times> state" where
  "applyValidators a context s =
     (case applyValidators_loop (Elements context) s of
        (CbOk, s') \<Rightarrow>
          (case app_validator a of
             None \<Rightarrow> (CbOk, s')
           | Some f \<Rightarrow> runCb (EvValidator (app_Name a)) f s')
      | (r, s') \<Rightarrow> (r, s'))"

fun dispatchPreActions :: "element list \<Rightarrow> state \<Rightarrow> cbres \<times> state" where
  "dispatchPreActions [] s = (CbOk, s)"
| "dispatchPreActions (e # es) s =
     (case runAll (EvPreAction (elemName e)) (elemPreActions e) s of
        (CbOk, s') \<Rightarrow> dispatchPreActions es s'
      | (r, s') \<Rightarrow> (r, s'))"

definition applyPreActions :: "Application \<Rightarrow> ParseContext \<Rightarrow> bool \<Rightarrow> state \<Rightarrow> cbres \<times> state" where
  "applyPreActions a context dispatch s =
     (case runAll (EvPreAction (app_Name a)) (app_preActions a) s of
        (CbOk, s') \<Rightarrow>
          if dispatch then dispatchPreActions (Elements context) s' else (CbOk, s')
      | (r, s') \<Rightarrow> (r, s'))"

fun dispatchActions :: "element list \<Rightarrow> state \<Rightarrow> cbres \<times> state" where
  "dispatchActions [] s = (CbOk, s)"
| "dispatchActions (e # es) s =
     (case runAll (EvAction (elemName e)) (elemActions e) s of
        (CbOk, s') \<Rightarrow> dispatchActions es s'
      | (r, s') \<Rightarrow> (r, s'))"

definition applyActions :: "Application \<Rightarrow> ParseContext \<Rightarrow> state \<Rightarrow> cbres \<times> state" where
  "applyActions a context s =
     (case runAll (EvAction (app_Name a)) (app_actions a) s of
        (CbOk, s') \<Rightarrow> dispatchActions (Elements context) s'
      | (r, s') \<Rightarrow> (r, s'))"

section \<open>Application.execute and Application.Parse (app.go)\<close>

text \<open>
  What a call of Parse or execute comes to: it returns the pair (command, err), or the
  process ends with a status before it returns.
\<close>

datatype outcome = Return string "error option" | ProcessExit int

fun failed :: "cbres \<Rightarrow> outcome" where
  "failed (CbErr e) = Return [] (Some e)"
| "failed (CbExit n) = ProcessExit n"
| "failed CbOk = Return [] None"

definition execute ::
  "Application \<Rightarrow> env \<Rightarrow> Clause list \<Rightarrow> ParseContext \<Rightarrow> string list \<Rightarrow> state \<Rightarrow> outcome \<times> state" where
  "execute a getenv fs context selected s =
     (case validateRequired getenv fs context s of
        (Some e, s1) \<Rightarrow> (Return [] (Some e), s1)
      | (None, s1) \<Rightarrow>
          (case applyValidators a context s1 of
             (CbOk, s2) \<Rightarrow>
               (case applyActions a context s2 of
                  (CbOk, s3) \<Rightarrow>
                    (let command = join '' '' selected in
                     if command = [] \<and> app_commands a \<noteq> []
                     then (Return [] (Some ErrCommandNotSpecified), s3)
                     else (Return command None, s3))
                | (r, s3) \<Rightarrow> (failed r, s3))
           | (r, s2) \<Rightarrow> (failed r, s2)))"

text \<open>
  Parse. \<open>pc\<close> is what ParseContext(args) returned: the context (nil when init failed) and
  the error of the parser. \<open>fsD\<close> and \<open>fsR\<close> are the flags of context.flags.long in the
  order setDefaults and validateRequired visit them. \<open>pcx\<close> is the method parseContext
  that maybeHelp calls.
\<close>

definition Parse ::
  "Application \<Rightarrow> env \<Rightarrow> Clause list \<Rightarrow> Clause list \<Rightarrow> reparse
     \<Rightarrow> ParseContext option \<times> error option \<Rightarrow> state \<Rightarrow> outcome \<times> state" where
  "Parse a getenv fsD fsR pcx pc s =
     (case pc of
        (None, parseErr) \<Rightarrow> (Return [] parseErr, s)
      | (Some context, parseErr) \<Rightarrow>
     (case setDefaults getenv fsD context s of
        (Some e, s1) \<Rightarrow> (Return [] (Some e), s1)
      | (None, s1) \<Rightarrow>
     (case setValues context s1 of ((selected, setValuesErr), s2) \<Rightarrow>
     (case applyPreActions a context (\<not> completion a s2) s2 of
        (CbOk, s3) \<Rightarrow>
          if completion a s3 then
            (case callTerminate a 0 (logEv EvCompletion s3) of
               (CbOk, s4) \<Rightarrow> (Return [] None, s4)
             | (r, s4) \<Rightarrow> (failed r, s4))
          else if parseErr \<noteq> None then (Return [] parseErr, s3)
          else
            (case maybeHelp a pcx (rawArgs context) (Elements context) s3 of
               (CbOk, s4) \<Rightarrow>
                 if \<not> EOL context
                 then (Return [] (Some (ErrUnexpectedArgument (Peek context))), s4)
                 else if setValuesErr \<noteq> None then (Return [] setValuesErr, s4)
                 else
                   (case execute a getenv fsR context selected s4 of
                      (Return command (Some ErrCommandNotSpecified), s5) \<Rightarrow>
                        (case writeUsage a s5 of
                           (CbOk, s6) \<Rightarrow> (Return command (Some ErrCommandNotSpecified), s6)
                         | (r, s6) \<Rightarrow> (failed r, s6))
                    | (out, s5) \<Rightarrow> (out, s5))
             | (r, s4) \<Rightarrow> (failed r, s4))
      | (r, s3) \<Rightarrow> (failed r, s3)))))"

section \<open>Converters of the scenarios\<close>

text \<open>
  Modelled from the spec: the String, Strings and Bool converters (values.go is not under
  src/). String stores the raw string; Strings is cumulative and appends it; Bool is a
  boolean flag that parses it as \<^verbatim>\<open>strconv.ParseBool\<close> does, negatable unless it was
  registered with UnNegatableBool.
\<close>

definition stringValue :: Value where
  "stringValue =
     \<lparr>Set_v = (\<lambda>w raw. Inr (VString raw)),
      String_v = (\<lambda>w. case w of VString x \<Rightarrow> x | _ \<Rightarrow> []),
      IsBoolFlag = False, BoolFlagIsNegatable = False, IsCumulative = False\<rparr>"

definition stringsValue :: Value where
  "stringsValue =
     \<lparr>Set_v = (\<lambda>w raw. case w of VStrings xs \<Rightarrow> Inr (VStrings (xs @ [raw]))
                             | _ \<Rightarrow> Inr (VStrings [raw])),
      String_v = (\<lambda>w. case w of VStrings xs \<Rightarrow> join '','' xs | _ \<Rightarrow> []),
      IsBoolFlag = False, BoolFlagIsNegatable = False, IsCumulative = True\<rparr>"

definition ParseBool :: "string \<Rightarrow> error + bool" where
  "ParseBool raw =
     (if raw \<in> set [''1'', ''t'', ''T'', ''TRUE'', ''true'', ''True''] then Inr True
      else if raw \<in> set [''0'', ''f'', ''F'', ''FALSE'', ''false'', ''False''] then Inr False
      else Inl (ErrOther raw))"

definition boolValue :: "bool \<Rightarrow> Value" where
  "boolValue negatable =
     \<lparr>Set_v = (\<lambda>w raw. case ParseBool raw of Inl e \<Rightarrow> Inl e | Inr b \<Rightarrow> Inr (VBool b)),
      String_v = (\<lambda>w. case w of VBool True \<Rightarrow> ''true'' | _ \<Rightarrow> ''false''),
      IsBoolFlag = True, BoolFlagIsNegatable = negatable, IsCumulative = False\<rparr>"

section \<open>Notions the properties are stated with\<close>

text \<open>The converter of a matched flag or argument accepts its raw string, whatever the variable holds.\<close>

fun accepts :: "element \<Rightarrow> bool" where
  "accepts (EFlag c v) = (\<forall>w. \<exists>w'. Set_v (cvalue c) w v = Inr w')"
| "accepts (EArg c v) = (\<forall>w. \<exists>w'. Set_v (cvalue c) w v = Inr w')"
| "accepts (ECmd c) = True"

text \<open>The flag clauses among the elements, in encounter order.\<close>

fun flagClauses :: "element list \<Rightarrow> Clause list" where
  "flagClauses [] = []"
| "flagClauses (EFlag c v # es) = c # flagClauses es"
| "flagClauses (e # es) = flagClauses es"

text \<open>
  The elements bound to the variable at address \<open>t\<close>, in encounter order: the converter and
  the raw string of each.
\<close>

fun writers :: "addr \<Rightarrow> element list \<Rightarrow> (Value \<times> string) list" where
  "writers t [] = []"
| "writers t (EFlag c v # es) = (if target c = t then (cvalue c, v) # writers t es else writers t es)"
| "writers t (EArg c v # es) = (if target c = t then (cvalue c, v) # writers t es else writers t es)"
| "writers t (ECmd c # es) = writers t es"

text \<open>The converters applied to a variable one after the other.\<close>

fun applyWriters :: "val \<Rightarrow> (Value \<times> string) list \<Rightarrow> error + val" where
  "applyWriters w [] = Inr w"
| "applyWriters w ((cv, raw) # ws) =
     (case Set_v cv w raw of Inl e \<Rightarrow> Inl e | Inr w' \<Rightarrow> applyWriters w' ws)"

text \<open>
  A flag already met comes again with a converter that is not cumulative: the condition
  under which the loop of setValues stops. \<open>S\<close> holds the names met so far.
\<close>

fun repeats :: "string set \<Rightarrow> element list \<Rightarrow> bool" where
  "repeats S [] = False"
| "repeats S (EFlag c v # es) =
     ((name c \<in> S \<and> \<not> IsCumulative (cvalue c)) \<or> repeats (insert (name c) S) es)"
| "repeats S (EArg c v # es) = repeats S es"
| "repeats S (ECmd c # es) = repeats S es"

section \<open>Scenarios of the tests\<close>

text \<open>
  A clause as Flag(name, help) or Arg(name, help) followed by a converter leaves it: no
  shorthand, not required, no defaults, no environment variable, no callbacks.
\<close>

definition newClause :: "nat \<Rightarrow> string \<Rightarrow> Value \<Rightarrow> addr \<Rightarrow> Clause" where
  "newClause p n cv t =
     \<lparr>ptr = p, name = n, shorthand = [], required = False, defaultValues = [], envar = [],
      cvalue = cv, target = t, preActions = [], actions = []\<rparr>"

text \<open>The variables before a run: a Strings variable is the empty list, any other the empty string.\<close>

definition state0 :: "addr list \<Rightarrow> state" where
  "state0 ls = \<lparr>store = (\<lambda>t. if t \<in> set ls then VStrings [] else VString []), trace = []\<rparr>"

definition emptyContext :: ParseContext where
  "emptyContext = \<lparr>Elements = [], arguments = [], EOL = True, Peek = [], rawArgs = []\<rparr>"

text \<open>
  TestRepeatableFlags (app_test.go): flag a is a String, flag b is Strings; the elements are
  those of \<^verbatim>\<open>--a=foo --a=bar\<close> and of \<^verbatim>\<open>--b=foo --b=bar\<close>.
\<close>

definition repeat_a :: ParseContext where
  "repeat_a = emptyContext\<lparr>Elements :=
     [EFlag (newClause 1 ''a'' stringValue 1) ''foo'', EFlag (newClause 1 ''a'' stringValue 1) ''bar'']\<rparr>"

definition repeat_b :: ParseContext where
  "repeat_b = emptyContext\<lparr>Elements :=
     [EFlag (newClause 2 ''b'' stringsValue 2) ''foo'', EFlag (newClause 2 ''b'' stringsValue 2) ''bar'']\<rparr>"

section \<open>New and the application of the tests (app.go, app_test.go)\<close>

text \<open>
  The flags New registers, each an UnNegatableBool with a variable of its own (addresses 0
  to 6; the fifth is the field \<^verbatim>\<open>completion\<close>). The pre-actions of the generate-flags
  write a text and call the termination handler with status 0: they end the process exactly
  when the handler does.
\<close>

definition generateAction :: "bool \<Rightarrow> Action" where
  "generateAction exits = (\<lambda>st. (if exits then CbExit 0 else CbOk, st))"

definition builtinFlag :: "nat \<Rightarrow> string \<Rightarrow> Action list \<Rightarrow> Clause" where
  "builtinFlag p n pre = (newClause p n (boolValue False) p)\<lparr>preActions := pre\<rparr>"

definition builtinFlags :: "bool \<Rightarrow> Clause list" where
  "builtinFlags exits =
     [builtinFlag 0 ''help'' [],
      builtinFlag 1 ''help-long'' [generateAction exits],
      builtinFlag 2 ''help-compact'' [generateAction exits],
      builtinFlag 3 ''help-man'' [generateAction exits],
      builtinFlag 4 ''completion-bash'' [],
      builtinFlag 5 ''completion-script-bash'' [generateAction exits],
      builtinFlag 6 ''completion-script-zsh'' [generateAction exits]]"

text \<open>
  The application New(name, help) builds, followed by Terminate: \<open>exits\<close> is True for the
  default handler os.Exit and False for the no-op that Terminate(nil) installs.
\<close>

definition NewApp :: "bool \<Rightarrow> string \<Rightarrow> Application" where
  "NewApp exits n =
     \<lparr>initialized = False, app_Name = n, noInterspersed = False, completion_addr = 4,
      HelpFlag = builtinFlag 0 ''help'' [], app_validator = None, app_preActions = [],
      app_actions = [], terminateExits = exits, app_flagOrder = builtinFlags exits,
      app_args = [], app_commands = []\<rparr>"

definition New :: "string \<Rightarrow> Application" where
  "New n = NewApp True n"

definition newTestApp :: Application where
  "newTestApp = NewApp False ''test''"

section \<open>The order of the calls in a trace\<close>

text \<open>
  The pass that makes a call, numbered in the order Parse and execute run the passes:
  setDefaults, setValues, applyPreActions, validateRequired, applyValidators, applyActions.
  The writes of usage and completion text and the calls of the termination handler belong
  to no pass.
\<close>

fun codeOrder :: "event \<Rightarrow> nat option" where
  "codeOrder (EvSetDefault n v) = Some 1"
| "codeOrder (EvSetValue n v) = Some 2"
| "codeOrder (EvPreAction n) = Some 3"
| "codeOrder (EvNeedsValue n) = Some 4"
| "codeOrder (EvValidator n) = Some 5"
| "codeOrder (EvAction n) = Some 6"
| "codeOrder e = None"

text \<open>
  The order the specification states: setDefaults, validateRequired, setValues, validators,
  then pre-actions and actions.
\<close>

fun specOrder :: "event \<Rightarrow> nat option" where
  "specOrder (EvSetDefault n v) = Some 1"
| "specOrder (EvNeedsValue n) = Some 2"
| "specOrder (EvSetValue n v) = Some 3"
| "specOrder (EvValidator n) = Some 4"
| "specOrder (EvPreAction n) = Some 5"
| "specOrder (EvAction n) = Some 6"
| "specOrder e = None"

text \<open>The pass numbers of the calls of a trace, in the order of the trace.\<close>

fun calls :: "(event \<Rightarrow> nat option) \<Rightarrow> event list \<Rightarrow> nat list" where
  "calls f [] = []"
| "calls f (e # es) = (case f e of None \<Rightarrow> calls f es | Some k \<Rightarrow> k # calls f es)"

text \<open>
  From \<open>s\<close> to \<open>s'\<close> the trace grew by events whose calls all come from the passes \<open>K\<close> and
  stand in the order of the passes.
\<close>

definition grew :: "nat set \<Rightarrow> state \<Rightarrow> state \<Rightarrow> bool" where
  "grew K s s' \<longleftrightarrow>
     (\<exists>evs. trace s' = trace s @ evs \<and> set (calls codeOrder evs) \<subseteq> K
        \<and> sorted (calls codeOrder evs))"

text \<open>
  TestRequiredFlags (app_test.go): flag a is a String, flag b a required String, and the
  command line is \<^verbatim>\<open>--a=foo\<close>. \<open>required_flags\<close> lists context.flags.long, the flags of
  New first.
\<close>

definition required_flags :: "Clause list" where
  "required_flags =
     builtinFlags False @
     [newClause 7 ''a'' stringValue 7, (newClause 8 ''b'' stringValue 8)\<lparr>required := True\<rparr>]"

definition required_app :: Application where
  "required_app = newTestApp\<lparr>app_flagOrder := required_flags\<rparr>"

definition required_context :: ParseContext where
  "required_context =
     emptyContext\<lparr>Elements := [EFlag (newClause 7 ''a'' stringValue 7) ''foo''],
                  rawArgs := [''--a=foo'']\<rparr>"

definition noenv :: env where
  "noenv = (\<lambda>v. [])"

text \<open>The converter calls setValues makes when no call fails: one for each flag and argument element, in the order of the elements.\<close>

fun valueCalls :: "element list \<Rightarrow> event list" where
  "valueCalls [] = []"
| "valueCalls (EFlag c v # es) = EvSetValue (name c) v # valueCalls es"
| "valueCalls (EArg c v # es) = EvSetValue (name c) v # valueCalls es"
| "valueCalls (ECmd c # es) = valueCalls es"

text \<open>
  A command line \<^verbatim>\<open>--help\<close> for an application with a flag ttl that has the default 5s
  (TestCommander has such a flag): the help flag is matched, ttl is not.
\<close>

definition help_flags :: "Clause list" where
  "help_flags =
     builtinFlags False @ [(newClause 7 ''ttl'' stringValue 7)\<lparr>defaultValues := [''5s'']\<rparr>]"

definition help_context :: ParseContext where
  "help_context =
     emptyContext\<lparr>Elements := [EFlag (HelpFlag newTestApp) ''true''], rawArgs := [''--help'']\<rparr>"

text \<open>The names of the matched commands in encounter order, and the last matched command.\<close>

fun selectedNames :: "element list \<Rightarrow> string list" where
  "selectedNames [] = []"
| "selectedNames (ECmd c # es) = cmd_name c # selectedNames es"
| "selectedNames (e # es) = selectedNames es"

fun lastCmdOf :: "CmdClause option \<Rightarrow> element list \<Rightarrow> CmdClause option" where
  "lastCmdOf lc [] = lc"
| "lastCmdOf lc (ECmd c # es) = lastCmdOf (Some c) es"
| "lastCmdOf lc (e # es) = lastCmdOf lc es"

text \<open>No flag comes again with a converter that is not cumulative.\<close>

definition repeatsAreCumulative :: "element list \<Rightarrow> bool" where
  "repeatsAreCumulative es \<longleftrightarrow>
     (\<forall>i j. i < j \<and> j < length (flagClauses es) \<and>
         name (flagClauses es ! i) = name (flagClauses es ! j)
       \<longrightarrow> IsCumulative (cvalue (flagClauses es ! j)))"

text \<open>
  TestSelectedCommand and TestSubCommandRequired (app_test.go): command c0 with the
  subcommand c1, and the elements of the command lines \<^verbatim>\<open>c0\<close> and \<^verbatim>\<open>c0 c1\<close>. The help
  command that init adds stands first in commandOrder.
\<close>

definition cmd_c1 :: CmdClause where
  "cmd_c1 = CmdClause 11 ''c1'' [''c0''] [] [] [] None [] []"

definition cmd_c0 :: CmdClause where
  "cmd_c0 = CmdClause 10 ''c0'' [] [] [] [cmd_c1] None [] []"

definition cmd_help :: CmdClause where
  "cmd_help = CmdClause 9 ''help'' [] []
     [newClause 12 ''command'' stringsValue 12] [] None [generateAction False] []"

definition selected_app :: Application where
  "selected_app = newTestApp\<lparr>initialized := True, app_commands := [cmd_help, cmd_c0]\<rparr>"

definition context_c0 :: ParseContext where
  "context_c0 = emptyContext\<lparr>Elements := [ECmd cmd_c0], rawArgs := [''c0'']\<rparr>"

definition context_c0_c1 :: ParseContext where
  "context_c0_c1 = emptyContext\<lparr>Elements := [ECmd cmd_c0, ECmd cmd_c1], rawArgs := [''c0'', ''c1'']\<rparr>"

text \<open>The states Parse goes through: after setDefaults, after setValues, after the pre-actions, after maybeHelp.\<close>

definition afterDefaults :: "env \<Rightarrow> Clause list \<Rightarrow> ParseContext \<Rightarrow> state \<Rightarrow> state" where
  "afterDefaults getenv fsD ctx s = snd (setDefaults getenv fsD ctx s)"

definition afterValues :: "env \<Rightarrow> Clause list \<Rightarrow> ParseContext \<Rightarrow> state \<Rightarrow> state" where
  "afterValues getenv fsD ctx s = snd (setValues ctx (afterDefaults getenv fsD ctx s))"

definition afterPreActions :: "Application \<Rightarrow> env \<Rightarrow> Clause list \<Rightarrow> ParseContext \<Rightarrow> state \<Rightarrow> state" where
  "afterPreActions a getenv fsD ctx s =
     snd (applyPreActions a ctx (\<not> completion a (afterValues getenv fsD ctx s))
            (afterValues getenv fsD ctx s))"











section \<open>Application.init and checkDuplicateFlags (app.go)\<close>

text \<open>
  Modelled from the spec: the maps flagGroup.long and flagGroup.short (flags.go is not under
  src/): a flag group maps the long name and the short character of each of its flags to
  the flag. checkDuplicateFlags only asks whether a key is present; a group is represented
  by its flagOrder.
\<close>

definition inLong :: "Clause list \<Rightarrow> string \<Rightarrow> bool" where
  "inLong flags n \<longleftrightarrow> n \<in> set (map name flags)"

definition inShort :: "Clause list \<Rightarrow> string \<Rightarrow> bool" where
  "inShort flags c \<longleftrightarrow> c \<in> set (map shorthand (filter (\<lambda>f. shorthand f \<noteq> []) flags))"

text \<open>The inner loop of checkDuplicateFlags: the flags of the current command against one group.\<close>

fun checkFlags :: "Clause list \<Rightarrow> Clause list \<Rightarrow> error option" where
  "checkFlags flags [] = None"
| "checkFlags flags (flag # rest) =
     (if shorthand flag \<noteq> [] \<and> inShort flags (shorthand flag)
      then Some (ErrOther (''duplicate short flag -'' @ shorthand flag))
      else if inLong flags (name flag)
      then Some (ErrOther (''duplicate long flag --'' @ name flag))
      else checkFlags flags rest)"

text \<open>The outer loop: every group of flagGroups in turn.\<close>

fun checkGroups :: "Clause list list \<Rightarrow> Clause list \<Rightarrow> error option" where
  "checkGroups [] current = None"
| "checkGroups (flags # rest) current =
     (case checkFlags flags current of
        Some e \<Rightarrow> Some e
      | None \<Rightarrow> checkGroups rest current)"

text \<open>
  checkDuplicateFlags, with the loop over the subcommands as \<open>checkSubcommands\<close>.
  The slice flagGroups is extended by append for the recursive calls only.
\<close>

fun checkDuplicateFlags :: "CmdClause \<Rightarrow> Clause list list \<Rightarrow> error option"
  and checkSubcommands :: "CmdClause list \<Rightarrow> Clause list list \<Rightarrow> error option" where
  "checkDuplicateFlags (CmdClause p n ps flagOrder args commandOrder v pre act) flagGroups =
     (case checkGroups flagGroups flagOrder of
        Some e \<Rightarrow> Some e
      | None \<Rightarrow> checkSubcommands commandOrder (flagGroups @ [flagOrder]))"
| "checkSubcommands [] flagGroups = None"
| "checkSubcommands (subcmd # rest) flagGroups =
     (case checkDuplicateFlags subcmd flagGroups of
        Some e \<Rightarrow> Some e
      | None \<Rightarrow> checkSubcommands rest flagGroups)"

text \<open>
  The validations init calls that live in flags.go, cmd.go and args.go, none of them under
  src/: flagGroup.init, cmdGroup.init, argGroup.init and the init of each command. Their
  results are parameters of init.
\<close>

record groupInits =
  flagGroup_init :: "error option"
  cmdGroup_init :: "error option"
  argGroup_init :: "error option"
  commands_init :: "error option"

text \<open>
  init. \<open>helpCommand\<close> is the command that \<^verbatim>\<open>a.Command("help", "Show help.")\<close> builds when
  the application has commands; init makes it the first of commandOrder.
\<close>

definition init :: "CmdClause \<Rightarrow> groupInits \<Rightarrow> Application \<Rightarrow> error option \<times> Application" where
  "init helpCommand gi a =
     (if initialized a then (None, a)
      else if app_commands a \<noteq> [] \<and> app_args a \<noteq> []
      then (Some (ErrOther (''can'' @ [CHR 0x27] @ ''t mix top-level Arg()s with Command()s'')), a)
      else
        (let a1 = (if app_commands a \<noteq> []
                   then a\<lparr>app_commands := helpCommand # app_commands a\<rparr> else a)
         in case flagGroup_init gi of Some e \<Rightarrow> (Some e, a1) | None \<Rightarrow>
            (case cmdGroup_init gi of Some e \<Rightarrow> (Some e, a1) | None \<Rightarrow>
            (case argGroup_init gi of Some e \<Rightarrow> (Some e, a1) | None \<Rightarrow>
            (case commands_init gi of Some e \<Rightarrow> (Some e, a1) | None \<Rightarrow>
            (case checkSubcommands (app_commands a1) [app_flagOrder a1] of
               Some e \<Rightarrow> (Some e, a1)
             | None \<Rightarrow> (None, a1\<lparr>initialized := True\<rparr>)))))))"

text \<open>
  parseContext: init first, then the tokenizer and the parser, which are not under src/ and
  enter as the function \<open>parser\<close>: from the initialised application, the flag ignoreDefault
  and the arguments it gives the context and the error of the parser, and it may write the
  variables. The result is the method of type \<open>reparse\<close> together with the application as
  init left it.
\<close>

type_synonym parser =
  "Application \<Rightarrow> bool \<Rightarrow> string list \<Rightarrow> (addr \<Rightarrow> val) \<Rightarrow> (ParseContext \<times> error option) \<times> (addr \<Rightarrow> val)"

definition parseContext ::
  "CmdClause \<Rightarrow> groupInits \<Rightarrow> parser \<Rightarrow> Application \<Rightarrow> bool \<Rightarrow> string list \<Rightarrow> (addr \<Rightarrow> val)
     \<Rightarrow> ((ParseContext option \<times> error option) \<times> (addr \<Rightarrow> val)) \<times> Application" where
  "parseContext helpCommand gi parser a ignoreDefault args st =
     (case init helpCommand gi a of
        (Some e, a') \<Rightarrow> (((None, Some e), st), a')
      | (None, a') \<Rightarrow>
          (case parser a' ignoreDefault args st of
             ((context, err), st') \<Rightarrow> (((Some context, err), st'), a')))"

text \<open>
  The commands of a tree, each with the flag groups of the application and of its
  ancestors, as checkDuplicateFlags meets them.
\<close>

fun nodes :: "Clause list list \<Rightarrow> CmdClause \<Rightarrow> (Clause list list \<times> CmdClause) list"
  and nodesOf :: "Clause list list \<Rightarrow> CmdClause list \<Rightarrow> (Clause list list \<times> CmdClause) list" where
  "nodes gs (CmdClause p n ps flagOrder args commandOrder v pre act) =
     (gs, CmdClause p n ps flagOrder args commandOrder v pre act)
       # nodesOf (gs @ [flagOrder]) commandOrder"
| "nodesOf gs [] = []"
| "nodesOf gs (c # cs) = nodes gs c @ nodesOf gs cs"

text \<open>
  A flag of the command shares its long name, or its short character when it has one, with
  a flag of one of the groups.
\<close>

definition duplicated :: "Clause list list \<times> CmdClause \<Rightarrow> bool" where
  "duplicated node \<longleftrightarrow>
     (\<exists>flags \<in> set (fst node). \<exists>flag \<in> set (cmd_flagOrder (snd node)). \<exists>other \<in> set flags.
        name other = name flag \<or> (shorthand flag \<noteq> [] \<and> shorthand other = shorthand flag))"

text \<open>
  TestTopLevelArgCantBeUsedWithCommands (app_test.go): an argument and a command at the top
  level. \<open>dup_app\<close> has the flag a at the top level and again, with the short character x,
  on the command cmd. \<open>okInits\<close>: the group validations find nothing.
\<close>

definition mix_app :: Application where
  "mix_app = newTestApp\<lparr>app_args := [newClause 7 ''arg'' stringValue 7],
     app_commands := [CmdClause 8 ''cmd'' [] [] [] [] None [] []]\<rparr>"

definition dup_app :: Application where
  "dup_app = newTestApp\<lparr>app_flagOrder := builtinFlags False @ [newClause 7 ''a'' stringValue 7],
     app_commands := [CmdClause 8 ''cmd'' []
        [(newClause 13 ''a'' stringValue 13)\<lparr>shorthand := ''x''\<rparr>] [] [] None [] []]\<rparr>"

definition okInits :: groupInits where
  "okInits = \<lparr>flagGroup_init = None, cmdGroup_init = None, argGroup_init = None,
              commands_init = None\<rparr>"

text \<open>A parser that matches nothing and writes no variable, and the parseContext it gives.\<close>

definition noParser :: parser where
  "noParser a ignoreDefault args st = ((emptyContext\<lparr>rawArgs := args\<rparr>, None), st)"

definition noReparse :: reparse where
  "noReparse ignoreDefault args st = ((Some (emptyContext\<lparr>rawArgs := args\<rparr>), None), st)"

definition valid_app :: Application where
  "valid_app = newTestApp\<lparr>app_commands := [cmd_c0]\<rparr>"

text \<open>
  Parse from its first line on: the call of ParseContext(args), which is
  parseContext(false, args), and then the body above with what the call returned.
\<close>

definition ParseArgs ::
  "Application \<Rightarrow> env \<Rightarrow> Clause list \<Rightarrow> Clause list \<Rightarrow> reparse \<Rightarrow> string list \<Rightarrow> state
     \<Rightarrow> outcome \<times> state" where
  "ParseArgs a getenv fsD fsR pcx args s =
     (case pcx False args (store s) of
        (pc, st) \<Rightarrow> Parse a getenv fsD fsR pcx pc (s\<lparr>store := st\<rparr>))"

text \<open>
  The command line \<^verbatim>\<open>--help\<close> for an application with the argument x, a String with the
  declared default dflt. \<open>help_arg_reparse\<close> is the method parseContext of this application
  on that command line: the parser matches the help flag, and at its end it gives every
  argument left without a value its declared defaults, as the parser of parser.go does
  (the file is not under src/; an Argument with Default holds the default after ParseContext
  alone).
\<close>

definition help_arg_context :: ParseContext where
  "help_arg_context =
     emptyContext\<lparr>Elements := [EFlag (HelpFlag newTestApp) ''true''],
                  arguments := [(newClause 7 ''x'' stringValue 7)\<lparr>defaultValues := [''dflt'']\<rparr>],
                  rawArgs := [''--help'']\<rparr>"

definition help_arg_reparse :: reparse where
  "help_arg_reparse ignoreDefault args st =
     ((Some help_arg_context, None), st(7 := VString ''dflt''))"

text \<open>
  An application whose field HelpFlag was replaced by a flag named h, and the elements of
  the command line \<^verbatim>\<open>--h\<close>.
\<close>

definition replaced_help_app :: Application where
  "replaced_help_app = newTestApp\<lparr>HelpFlag := builtinFlag 8 ''h'' []\<rparr>"

definition replaced_help_context :: ParseContext where
  "replaced_help_context =
     emptyContext\<lparr>Elements := [EFlag (HelpFlag replaced_help_app) ''true''], rawArgs := [''--h'']\<rparr>"








section \<open>The plugin delegator (app_plugin.go)\<close>

text \<open>
  pluginDelegator, as the newest of the versions of app_plugin.go under src/ declares it (the
  one that defines \<^verbatim>\<open>pluginAction\<close>). A pointer is an address or nil (None). The maps are
  Go maps from the name of a flag or argument to the pointer the converter returned;
  \<open>pd_globalFlags\<close> is the flag group of the host application, read through its map
  \<^verbatim>\<open>long\<close>. The fields parent and name are not read by the action.
\<close>

type_synonym pointer = "addr option"

record pluginDelegator =
  pd_command :: string
  pd_flags :: "string \<rightharpoonup> pointer"
  pd_cumuFlags :: "string \<rightharpoonup> pointer"
  pd_boolFlags :: "string \<rightharpoonup> pointer"
  pd_unNegBoolFlags :: "string \<rightharpoonup> pointer"
  pd_args :: "string \<rightharpoonup> pointer"
  pd_cumuArgs :: "string \<rightharpoonup> pointer"
  pd_proxyGlobals :: "string list"
  pd_globalFlags :: "Clause list"
  pd_flagsIsSet :: "string \<rightharpoonup> pointer"

text \<open>
  Go leaves the order in which \<^verbatim>\<open>range\<close> visits a map open and the runtime varies it from
  one loop to the next. A run of the action is therefore described by the sequence of keys
  each of its six loops over a map visits; any sequence that holds every key of the map
  once is possible.
\<close>

record ranges =
  range_args :: "string list"
  range_flags :: "string list"
  range_cumuFlags :: "string list"
  range_boolFlags :: "string list"
  range_unNegBoolFlags :: "string list"
  range_cumuArgs :: "string list"

definition visits :: "(string \<rightharpoonup> pointer) \<Rightarrow> string list \<Rightarrow> bool" where
  "visits m ks \<longleftrightarrow> distinct ks \<and> set ks = dom m"

text \<open>The variable behind a pointer, read at the type of the pointer.\<close>

definition strAt :: "(addr \<Rightarrow> val) \<Rightarrow> addr \<Rightarrow> string" where
  "strAt st t = (case st t of VString x \<Rightarrow> x | _ \<Rightarrow> [])"

definition strsAt :: "(addr \<Rightarrow> val) \<Rightarrow> addr \<Rightarrow> string list" where
  "strsAt st t = (case st t of VStrings xs \<Rightarrow> xs | _ \<Rightarrow> [])"

definition boolAt :: "(addr \<Rightarrow> val) \<Rightarrow> addr \<Rightarrow> bool" where
  "boolAt st t = (case st t of VBool b \<Rightarrow> b | _ \<Rightarrow> False)"

text \<open>
  \<^verbatim>\<open>*pd.flagsIsSet[k]\<close>: the dereference of a missing entry or of a nil pointer is a run-time
  panic, None here and in the loops below.
\<close>

definition isSet :: "(addr \<Rightarrow> val) \<Rightarrow> pluginDelegator \<Rightarrow> string \<Rightarrow> bool option" where
  "isSet st pd k = (case pd_flagsIsSet pd k of Some (Some t) \<Rightarrow> Some (boolAt st t) | _ \<Rightarrow> None)"

text \<open>\<^verbatim>\<open>strings.Split(s, sep)\<close> for a separator of one character; \<open>cur\<close> is the piece read so far.\<close>

fun Split :: "char \<Rightarrow> string \<Rightarrow> string \<Rightarrow> string list" where
  "Split sep cur [] = [cur]"
| "Split sep cur (c # cs) = (if c = sep then cur # Split sep [] cs else Split sep (cur @ [c]) cs)"

text \<open>The loops of pluginAction, one function each, in the order of the source; \<open>args\<close> is the slice built so far.\<close>

fun collect_args :: "(addr \<Rightarrow> val) \<Rightarrow> pluginDelegator \<Rightarrow> string list \<Rightarrow> string list \<Rightarrow> string list" where
  "collect_args st pd [] args = args"
| "collect_args st pd (k # ks) args =
     (case pd_args pd k of
        Some (Some v) \<Rightarrow>
          if strAt st v \<noteq> [] then collect_args st pd ks (args @ [strAt st v])
          else collect_args st pd ks args
      | _ \<Rightarrow> collect_args st pd ks args)"

fun collect_flags :: "(addr \<Rightarrow> val) \<Rightarrow> pluginDelegator \<Rightarrow> string list \<Rightarrow> string list \<Rightarrow> string list option" where
  "collect_flags st pd [] args = Some args"
| "collect_flags st pd (k # ks) args =
     (case pd_flags pd k of
        Some (Some v) \<Rightarrow>
          (case isSet st pd k of
             None \<Rightarrow> None
           | Some True \<Rightarrow> collect_flags st pd ks (args @ [''--'' @ k @ ''='' @ strAt st v])
           | Some False \<Rightarrow> collect_flags st pd ks args)
      | _ \<Rightarrow> collect_flags st pd ks args)"

fun collect_values :: "(addr \<Rightarrow> val) \<Rightarrow> pluginDelegator \<Rightarrow> string \<Rightarrow> string list \<Rightarrow> string list \<Rightarrow> string list option" where
  "collect_values st pd k [] args = Some args"
| "collect_values st pd k (cv # cvs) args =
     (case isSet st pd k of
        None \<Rightarrow> None
      | Some True \<Rightarrow> collect_values st pd k cvs (args @ [''--'' @ k @ ''='' @ cv])
      | Some False \<Rightarrow> collect_values st pd k cvs args)"

fun collect_cumuFlags :: "(addr \<Rightarrow> val) \<Rightarrow> pluginDelegator \<Rightarrow> string list \<Rightarrow> string list \<Rightarrow> string list option" where
  "collect_cumuFlags st pd [] args = Some args"
| "collect_cumuFlags st pd (k # ks) args =
     (case pd_cumuFlags pd k of
        Some (Some v) \<Rightarrow>
          (case collect_values st pd k (strsAt st v) args of
             None \<Rightarrow> None
           | Some args' \<Rightarrow> collect_cumuFlags st pd ks args')
      | _ \<Rightarrow> collect_cumuFlags st pd ks args)"

fun collect_boolFlags :: "(addr \<Rightarrow> val) \<Rightarrow> pluginDelegator \<Rightarrow> string list \<Rightarrow> string list \<Rightarrow> string list option" where
  "collect_boolFlags st pd [] args = Some args"
| "collect_boolFlags st pd (k # ks) args =
     (case isSet st pd k of
        None \<Rightarrow> None
      | Some False \<Rightarrow> collect_boolFlags st pd ks args
      | Some True \<Rightarrow>
          (case pd_boolFlags pd k of
             Some (Some v) \<Rightarrow>
               if boolAt st v then collect_boolFlags st pd ks (args @ [''--'' @ k])
               else collect_boolFlags st pd ks (args @ [''--no-'' @ k])
           | _ \<Rightarrow> None))"

fun collect_unNegBoolFlags :: "(addr \<Rightarrow> val) \<Rightarrow> pluginDelegator \<Rightarrow> string list \<Rightarrow> string list \<Rightarrow> string list option" where
  "collect_unNegBoolFlags st pd [] args = Some args"
| "collect_unNegBoolFlags st pd (k # ks) args =
     (case isSet st pd k of
        None \<Rightarrow> None
      | Some False \<Rightarrow> collect_unNegBoolFlags st pd ks args
      | Some True \<Rightarrow>
          (case pd_unNegBoolFlags pd k of
             Some (Some v) \<Rightarrow>
               if boolAt st v then collect_unNegBoolFlags st pd ks (args @ [''--'' @ k])
               else collect_unNegBoolFlags st pd ks args
           | _ \<Rightarrow> None))"

fun collect_proxyGlobals :: "(addr \<Rightarrow> val) \<Rightarrow> pluginDelegator \<Rightarrow> string list \<Rightarrow> string list \<Rightarrow> string list option" where
  "collect_proxyGlobals st pd [] args = Some args"
| "collect_proxyGlobals st pd (f # fs) args =
     (case isSet st pd f of
        None \<Rightarrow> None
      | Some False \<Rightarrow> collect_proxyGlobals st pd fs args
      | Some True \<Rightarrow>
          (case find (\<lambda>c. name c = f) (pd_globalFlags pd) of
             None \<Rightarrow> None
           | Some c \<Rightarrow>
               collect_proxyGlobals st pd fs
                 (args @ [''--'' @ f @ ''='' @ String_v (cvalue c) (st (target c))])))"

fun collect_cumuArgs :: "(addr \<Rightarrow> val) \<Rightarrow> pluginDelegator \<Rightarrow> string list \<Rightarrow> string list \<Rightarrow> string list" where
  "collect_cumuArgs st pd [] args = args"
| "collect_cumuArgs st pd (k # ks) args =
     (case pd_cumuArgs pd k of
        Some (Some v) \<Rightarrow> collect_cumuArgs st pd ks (args @ filter (\<lambda>i. i \<noteq> []) (strsAt st v))
      | _ \<Rightarrow> collect_cumuArgs st pd ks args)"

text \<open>
  pluginAction, up to the call of \<^verbatim>\<open>exec.Command(pd.command, args...)\<close>: the result is the
  command and the argument vector handed to it, None when the action panics before.
  \<open>full\<close> is what \<^verbatim>\<open>pc.SelectedCommand.FullCommand()\<close> returned, \<open>rg\<close> the orders in which
  this run visits the maps, \<open>st\<close> the variables.
\<close>

definition pluginAction ::
  "pluginDelegator \<Rightarrow> ranges \<Rightarrow> string \<Rightarrow> (addr \<Rightarrow> val) \<Rightarrow> (string \<times> string list) option" where
  "pluginAction pd rg full st =
     (let parts = Split CHR '' '' [] full;
          args = collect_args st pd (range_args rg) (tl parts)
      in case collect_flags st pd (range_flags rg) args of None \<Rightarrow> None | Some args \<Rightarrow>
        (case collect_cumuFlags st pd (range_cumuFlags rg) args of None \<Rightarrow> None | Some args \<Rightarrow>
        (case collect_boolFlags st pd (range_boolFlags rg) args of None \<Rightarrow> None | Some args \<Rightarrow>
        (case collect_unNegBoolFlags st pd (range_unNegBoolFlags rg) args of None \<Rightarrow> None | Some args \<Rightarrow>
        (case collect_proxyGlobals st pd (pd_proxyGlobals pd) args of None \<Rightarrow> None | Some args \<Rightarrow>
           Some (pd_command pd, collect_cumuArgs st pd (range_cumuArgs rg) args))))))"

text \<open>
  A plugin ngs of the host application nats (README) with a leaf command cp that declares
  the arguments src and dst, in this order, and the flag force; the user ran
  \<^verbatim>\<open>nats ngs cp from to\<close>. \<open>declared\<close> visits the arguments in the order of their declaration,
  \<open>swapped\<close> visits dst first.
\<close>

definition cp_pd :: pluginDelegator where
  "cp_pd =
     \<lparr>pd_command = ''/opt/nats/bin/ngs'',
      pd_flags = Map.empty, pd_cumuFlags = Map.empty,
      pd_boolFlags = [''force'' \<mapsto> Some 22], pd_unNegBoolFlags = Map.empty,
      pd_args = [''src'' \<mapsto> Some 20, ''dst'' \<mapsto> Some 21], pd_cumuArgs = Map.empty,
      pd_proxyGlobals = [], pd_globalFlags = builtinFlags True,
      pd_flagsIsSet = [''force'' \<mapsto> Some 23]\<rparr>"

definition cp_store :: "addr \<Rightarrow> val" where
  "cp_store =
     (\<lambda>t. if t = 20 then VString ''from'' else if t = 21 then VString ''to''
          else if t = 22 \<or> t = 23 then VBool False else VString [])"

definition declared :: ranges where
  "declared =
     \<lparr>range_args = [''src'', ''dst''], range_flags = [], range_cumuFlags = [],
      range_boolFlags = [''force''], range_unNegBoolFlags = [], range_cumuArgs = []\<rparr>"

definition swapped :: ranges where
  "swapped = declared\<lparr>range_args := [''dst'', ''src'']\<rparr>"

section \<open>Properties\<close>

subsection \<open>setValues\<close>

lemma callSet_accepts:
  "\<forall>w. \<exists>w'. Set_v (cvalue c) w v = Inr w' \<Longrightarrow> fst (callSet ev c v s) = None"
proof -
  assume "\<forall>w. \<exists>w'. Set_v (cvalue c) w v = Inr w'"
  then obtain w' where "Set_v (cvalue c) (store s (target c)) v = Inr w'" by blast
  then show ?thesis by (simp add: callSet_def)
qed

lemma loop_repeat:
  "\<forall>e\<in>set es. accepts e \<Longrightarrow> repeats S es \<Longrightarrow>
   \<exists>n. fst (setValues_loop es S sel lastCmd s) = ([], Some (ErrFlagCannotRepeat n))"
proof (induction es arbitrary: S sel lastCmd s)
  case Nil
  then show ?case by simp
next
  case (Cons e es)
  show ?case
  proof (cases e)
    case (EFlag c v)
    obtain r s' where cs: "callSet (EvSetValue (name c) v) c v s = (r, s')" by force
    from Cons.prems EFlag have "r = None"
      using callSet_accepts[of c v "EvSetValue (name c) v" s] cs by simp
    show ?thesis
    proof (cases "name c \<in> S \<and> \<not> IsCumulative (cvalue c)")
      case True
      then show ?thesis using EFlag by auto
    next
      case False
      with Cons.prems EFlag have "repeats (insert (name c) S) es" by auto
      with Cons.IH[of "insert (name c) S" sel lastCmd s'] Cons.prems
      show ?thesis using EFlag False cs \<open>r = None\<close> by auto
    qed
  next
    case (EArg c v)
    obtain r s' where cs: "callSet (EvSetValue (name c) v) c v s = (r, s')" by force
    from Cons.prems EArg have "r = None"
      using callSet_accepts[of c v "EvSetValue (name c) v" s] cs by simp
    from Cons.prems EArg have "repeats S es" by auto
    with Cons.IH[of S sel lastCmd s'] Cons.prems show ?thesis using EArg cs \<open>r = None\<close> by auto
  next
    case (ECmd c)
    with Cons show ?thesis by auto
  qed
qed

lemma callSet_store:
  "callSet ev c v s = (None, s') \<Longrightarrow>
   Set_v (cvalue c) (store s (target c)) v = Inr (store s' (target c)) \<and>
   (\<forall>t. t \<noteq> target c \<longrightarrow> store s' t = store s t)"
  by (auto simp: callSet_def logEv_def split: sum.splits)

lemma loop_writers:
  "\<forall>e\<in>set es. accepts e \<Longrightarrow> \<not> repeats S es \<Longrightarrow>
   applyWriters (store s t) (writers t es) = Inr (store (snd (setValues_loop es S sel lastCmd s)) t)"
proof (induction es arbitrary: S sel lastCmd s)
  case Nil
  then show ?case by (simp split: option.splits)
next
  case (Cons e es)
  show ?case
  proof (cases e)
    case (EFlag c v)
    obtain r s' where cs: "callSet (EvSetValue (name c) v) c v s = (r, s')" by force
    from Cons.prems EFlag have rn: "r = None"
      using callSet_accepts[of c v "EvSetValue (name c) v" s] cs by simp
    from Cons.prems EFlag have nr: "\<not> (name c \<in> S \<and> \<not> IsCumulative (cvalue c))"
      and nr': "\<not> repeats (insert (name c) S) es" by auto
    have ih: "applyWriters (store s' t) (writers t es) =
       Inr (store (snd (setValues_loop es (insert (name c) S) sel lastCmd s')) t)"
      using Cons.IH[OF _ nr'] Cons.prems by simp
    from cs rn have st: "Set_v (cvalue c) (store s (target c)) v = Inr (store s' (target c))"
      and oth: "\<forall>t. t \<noteq> target c \<longrightarrow> store s' t = store s t"
      using callSet_store by blast+
    show ?thesis using EFlag nr cs rn ih st oth by auto
  next
    case (EArg c v)
    obtain r s' where cs: "callSet (EvSetValue (name c) v) c v s = (r, s')" by force
    from Cons.prems EArg have rn: "r = None"
      using callSet_accepts[of c v "EvSetValue (name c) v" s] cs by simp
    from Cons.prems EArg have nr': "\<not> repeats S es" by auto
    have ih: "applyWriters (store s' t) (writers t es) =
       Inr (store (snd (setValues_loop es S sel lastCmd s')) t)"
      using Cons.IH[OF _ nr'] Cons.prems by simp
    from cs rn have st: "Set_v (cvalue c) (store s (target c)) v = Inr (store s' (target c))"
      and oth: "\<forall>t. t \<noteq> target c \<longrightarrow> store s' t = store s t"
      using callSet_store by blast+
    show ?thesis using EArg cs rn ih st oth by auto
  next
    case (ECmd c)
    with Cons show ?thesis by auto
  qed
qed

lemma repeats_iff:
  "repeats S es \<longleftrightarrow>
   (\<exists>j < length (flagClauses es). \<not> IsCumulative (cvalue (flagClauses es ! j)) \<and>
      (name (flagClauses es ! j) \<in> S \<or> (\<exists>i < j. name (flagClauses es ! i) = name (flagClauses es ! j))))"
proof (induction es arbitrary: S)
  case Nil
  then show ?case by simp
next
  case (Cons e es)
  show ?case
  proof (cases e)
    case (EFlag c v)
    let ?fc = "flagClauses es"
    have "repeats S (e # es) \<longleftrightarrow> (name c \<in> S \<and> \<not> IsCumulative (cvalue c)) \<or> repeats (insert (name c) S) es"
      using EFlag by simp
    also have "\<dots> \<longleftrightarrow> (name c \<in> S \<and> \<not> IsCumulative (cvalue c)) \<or>
       (\<exists>j < length ?fc. \<not> IsCumulative (cvalue (?fc ! j)) \<and>
          (name (?fc ! j) \<in> insert (name c) S \<or> (\<exists>i < j. name (?fc ! i) = name (?fc ! j))))"
      using Cons.IH by simp
    also have "\<dots> \<longleftrightarrow> (\<exists>j < length (c # ?fc). \<not> IsCumulative (cvalue ((c # ?fc) ! j)) \<and>
          (name ((c # ?fc) ! j) \<in> S \<or> (\<exists>i < j. name ((c # ?fc) ! i) = name ((c # ?fc) ! j))))"
      (is "?L \<longleftrightarrow> ?R")
    proof
      assume ?L
      then show ?R
      proof
        assume "name c \<in> S \<and> \<not> IsCumulative (cvalue c)"
        then show ?R by (intro exI[of _ 0]) simp
      next
        assume "\<exists>j < length ?fc. \<not> IsCumulative (cvalue (?fc ! j)) \<and>
          (name (?fc ! j) \<in> insert (name c) S \<or> (\<exists>i < j. name (?fc ! i) = name (?fc ! j)))"
        then obtain j where j: "j < length ?fc" "\<not> IsCumulative (cvalue (?fc ! j))"
          "name (?fc ! j) \<in> insert (name c) S \<or> (\<exists>i < j. name (?fc ! i) = name (?fc ! j))" by blast
        from j(3) have "name ((c # ?fc) ! Suc j) \<in> S \<or> (\<exists>i < Suc j. name ((c # ?fc) ! i) = name ((c # ?fc) ! Suc j))"
        proof (elim disjE)
          assume "name (?fc ! j) \<in> insert (name c) S"
          then show ?thesis by (cases "name (?fc ! j) = name c") (auto intro: exI[of _ 0])
        next
          assume "\<exists>i < j. name (?fc ! i) = name (?fc ! j)"
          then obtain i where "i < j" "name (?fc ! i) = name (?fc ! j)" by blast
          then show ?thesis by (intro disjI2 exI[of _ "Suc i"]) simp
        qed
        with j(1,2) show ?R by (intro exI[of _ "Suc j"]) simp
      qed
    next
      assume ?R
      then obtain j where j: "j < length (c # ?fc)" "\<not> IsCumulative (cvalue ((c # ?fc) ! j))"
          "name ((c # ?fc) ! j) \<in> S \<or> (\<exists>i < j. name ((c # ?fc) ! i) = name ((c # ?fc) ! j))" by blast
      show ?L
      proof (cases j)
        case 0
        with j show ?thesis by simp
      next
        case (Suc k)
        with j have k: "k < length ?fc" "\<not> IsCumulative (cvalue (?fc ! k))" by simp_all
        from j(3) Suc have "name (?fc ! k) \<in> insert (name c) S \<or> (\<exists>i < k. name (?fc ! i) = name (?fc ! k))"
        proof (elim disjE)
          assume "name ((c # ?fc) ! j) \<in> S"
          with Suc show ?thesis by simp
        next
          assume "\<exists>i < j. name ((c # ?fc) ! i) = name ((c # ?fc) ! j)"
          then obtain i where i: "i < j" "name ((c # ?fc) ! i) = name ((c # ?fc) ! j)" by blast
          show ?thesis
          proof (cases i)
            case 0
            with i Suc show ?thesis by simp
          next
            case (Suc i')
            with i \<open>j = Suc k\<close> show ?thesis by auto
          qed
        qed
        with k show ?thesis by blast
      qed
    qed
    finally show ?thesis using EFlag by simp
  next
    case (EArg c v)
    then show ?thesis using Cons.IH by simp
  next
    case (ECmd c)
    then show ?thesis using Cons.IH by simp
  qed
qed

lemma applyWriters_strings:
  "applyWriters (VStrings xs) (map (Pair stringsValue) vs) = Inr (VStrings (xs @ vs))"
  by (induction vs arbitrary: xs) (simp_all add: stringsValue_def)

text \<open>
  Claim C7. When the converters accept the raw strings of the matched elements: if some flag
  name comes a second time among the elements with a converter that does not report
  cumulative capability, setValues fails with ErrFlagCannotRepeat; if every flag that comes
  again is cumulative, every variable receives the raw strings of the elements bound to it
  through their converters in encounter order, so a variable written by Strings converters
  holds its former entries followed by the repeated values in the order they were met.
\<close>

theorem setValues_repeated_flag:
  assumes acc: "\<forall>e\<in>set (Elements context). accepts e"
  shows
    "((\<exists>i j. i < j \<and> j < length (flagClauses (Elements context)) \<and>
          name (flagClauses (Elements context) ! i) = name (flagClauses (Elements context) ! j) \<and>
          \<not> IsCumulative (cvalue (flagClauses (Elements context) ! j)))
        \<longrightarrow> (\<exists>n. fst (setValues context s) = ([], Some (ErrFlagCannotRepeat n))))
     \<and> ((\<forall>i j. i < j \<and> j < length (flagClauses (Elements context)) \<and>
          name (flagClauses (Elements context) ! i) = name (flagClauses (Elements context) ! j)
          \<longrightarrow> IsCumulative (cvalue (flagClauses (Elements context) ! j)))
        \<longrightarrow> (\<forall>t. applyWriters (store s t) (writers t (Elements context))
                   = Inr (store (snd (setValues context s)) t))
          \<and> (\<forall>t xs vs. store s t = VStrings xs \<and>
                 writers t (Elements context) = map (Pair stringsValue) vs
                 \<longrightarrow> store (snd (setValues context s)) t = VStrings (xs @ vs)))"
proof (intro conjI impI)
  assume "\<exists>i j. i < j \<and> j < length (flagClauses (Elements context)) \<and>
          name (flagClauses (Elements context) ! i) = name (flagClauses (Elements context) ! j) \<and>
          \<not> IsCumulative (cvalue (flagClauses (Elements context) ! j))"
  then have "repeats {} (Elements context)"
    unfolding repeats_iff by blast
  from loop_repeat[OF acc this]
  show "\<exists>n. fst (setValues context s) = ([], Some (ErrFlagCannotRepeat n))"
    by (simp add: setValues_def)
next
  assume a: "\<forall>i j. i < j \<and> j < length (flagClauses (Elements context)) \<and>
          name (flagClauses (Elements context) ! i) = name (flagClauses (Elements context) ! j)
          \<longrightarrow> IsCumulative (cvalue (flagClauses (Elements context) ! j))"
  then have nr: "\<not> repeats {} (Elements context)"
    unfolding repeats_iff by auto
  show w: "\<forall>t. applyWriters (store s t) (writers t (Elements context))
                   = Inr (store (snd (setValues context s)) t)"
    using loop_writers[OF acc nr] by (simp add: setValues_def)
  show "\<forall>t xs vs. store s t = VStrings xs \<and>
                 writers t (Elements context) = map (Pair stringsValue) vs
                 \<longrightarrow> store (snd (setValues context s)) t = VStrings (xs @ vs)"
  proof (intro allI impI)
    fix t xs vs
    assume h: "store s t = VStrings xs \<and> writers t (Elements context) = map (Pair stringsValue) vs"
    from w have "applyWriters (store s t) (writers t (Elements context))
                   = Inr (store (snd (setValues context s)) t)" by blast
    with h show "store (snd (setValues context s)) t = VStrings (xs @ vs)"
      by (simp add: applyWriters_strings)
  qed
qed

theorem setValues_repeated_flag_witness:
  "(\<exists>n. fst (setValues repeat_a (state0 [2])) = ([], Some (ErrFlagCannotRepeat n))) \<and>
   store (snd (setValues repeat_b (state0 [2]))) 2 = VStrings [''foo'', ''bar'']"
proof -
  have a: "\<forall>e\<in>set (Elements repeat_a). accepts e"
    by (simp add: repeat_a_def emptyContext_def newClause_def stringValue_def)
  have b: "\<forall>e\<in>set (Elements repeat_b). accepts e"
    by (auto simp add: repeat_b_def emptyContext_def newClause_def stringsValue_def split: val.splits)
  have ra: "\<exists>i j. i < j \<and> j < length (flagClauses (Elements repeat_a)) \<and>
          name (flagClauses (Elements repeat_a) ! i) = name (flagClauses (Elements repeat_a) ! j) \<and>
          \<not> IsCumulative (cvalue (flagClauses (Elements repeat_a) ! j))"
    by (intro exI[of _ 0] exI[of _ 1])
       (simp add: repeat_a_def emptyContext_def newClause_def stringValue_def)
  have rb: "\<forall>i j. i < j \<and> j < length (flagClauses (Elements repeat_b)) \<and>
          name (flagClauses (Elements repeat_b) ! i) = name (flagClauses (Elements repeat_b) ! j)
          \<longrightarrow> IsCumulative (cvalue (flagClauses (Elements repeat_b) ! j))"
    by (auto simp add: repeat_b_def emptyContext_def newClause_def stringsValue_def less_Suc_eq)
  have wb: "store (state0 [2]) 2 = VStrings [] \<and>
      writers 2 (Elements repeat_b) = map (Pair stringsValue) [''foo'', ''bar'']"
    by (simp add: repeat_b_def emptyContext_def newClause_def state0_def)
  from setValues_repeated_flag[OF a, of "state0 [2]"] ra
  have 1: "\<exists>n. fst (setValues repeat_a (state0 [2])) = ([], Some (ErrFlagCannotRepeat n))" by blast
  from setValues_repeated_flag[OF b, of "state0 [2]"] rb wb
  have 2: "store (snd (setValues repeat_b (state0 [2]))) 2 = VStrings ([] @ [''foo'', ''bar''])" by blast
  from 1 2 show ?thesis by simp
qed

subsection \<open>The trace of each pass\<close>

lemma calls_append: "calls f (xs @ ys) = calls f xs @ calls f ys"
  by (induction xs) (auto split: option.splits)

lemma grew_refl: "grew K s s"
  by (simp add: grew_def)

lemma grew_mono: "grew K s s' \<Longrightarrow> K \<subseteq> L \<Longrightarrow> grew L s s'"
  by (auto simp: grew_def)

lemma grew_trans:
  assumes "grew K s s1" "grew L s1 s2" "\<forall>a\<in>K. \<forall>b\<in>L. a \<le> b"
  shows "grew (K \<union> L) s s2"
proof -
  from assms(1) obtain e1 where 1: "trace s1 = trace s @ e1" "set (calls codeOrder e1) \<subseteq> K"
    "sorted (calls codeOrder e1)" by (auto simp: grew_def)
  from assms(2) obtain e2 where 2: "trace s2 = trace s1 @ e2" "set (calls codeOrder e2) \<subseteq> L"
    "sorted (calls codeOrder e2)" by (auto simp: grew_def)
  have "trace s2 = trace s @ (e1 @ e2)" using 1 2 by simp
  moreover have "set (calls codeOrder (e1 @ e2)) \<subseteq> K \<union> L" using 1 2 by (auto simp: calls_append)
  moreover have "sorted (calls codeOrder (e1 @ e2))"
    using 1 2 assms(3) by (auto simp: calls_append sorted_append)
  ultimately show ?thesis unfolding grew_def by blast
qed

lemma grew_same: "grew {k} s s1 \<Longrightarrow> grew {k} s1 s2 \<Longrightarrow> grew {k} s s2"
  using grew_trans[of "{k}" s s1 "{k}" s2] by simp

lemma grew_logEv: "codeOrder e = Some k \<Longrightarrow> grew {k} s (logEv e s)"
  by (simp add: grew_def logEv_def)

lemma grew_logEv_none: "codeOrder e = None \<Longrightarrow> grew {} s (logEv e s)"
  by (simp add: grew_def logEv_def)

lemma grew_callSet: "codeOrder ev = Some k \<Longrightarrow> grew {k} s (snd (callSet ev c v s))"
  by (auto simp: callSet_def grew_def logEv_def split: sum.splits)

lemma grew_runCb: "codeOrder ev = Some k \<Longrightarrow> grew {k} s (snd (runCb ev f s))"
  by (auto simp: runCb_def grew_def logEv_def split: prod.splits)

lemma grew_runAll: "codeOrder ev = Some k \<Longrightarrow> grew {k} s (snd (runAll ev fs s))"
proof (induction fs arbitrary: s)
  case Nil
  then show ?case by (simp add: grew_refl)
next
  case (Cons f fs)
  obtain r s1 where r: "runCb ev f s = (r, s1)" by force
  have 1: "grew {k} s s1" using grew_runCb[OF Cons.prems, of s f] r by simp
  show ?case
  proof (cases r)
    case CbOk
    with r have "snd (runAll ev (f # fs) s) = snd (runAll ev fs s1)" by simp
    with grew_same[OF 1 Cons.IH[OF Cons.prems, of s1]] show ?thesis by simp
  next
    case (CbErr e)
    with r 1 show ?thesis by simp
  next
    case (CbExit n)
    with r 1 show ?thesis by simp
  qed
qed

lemma grew_setEach: "grew {1} s (snd (setEach c vs s))"
proof (induction vs arbitrary: s)
  case Nil
  then show ?case by (simp add: grew_refl)
next
  case (Cons v vs)
  obtain r s1 where r: "callSet (EvSetDefault (name c) v) c v s = (r, s1)" by force
  have 1: "grew {1} s s1" using grew_callSet[of "EvSetDefault (name c) v" 1 s c v] r by simp
  show ?case
  proof (cases r)
    case None
    with r have "snd (setEach c (v # vs) s) = snd (setEach c vs s1)" by simp
    with grew_same[OF 1 Cons.IH[of s1]] show ?thesis by simp
  next
    case (Some e)
    with r 1 show ?thesis by simp
  qed
qed

lemma grew_setDefault: "grew {1} s (snd (setDefault getenv c s))"
  by (cases "HasEnvarValue getenv c"; cases "IsCumulative (cvalue c)")
     (simp_all only: setDefault_def if_True if_False grew_setEach)

lemma grew_setDefaults_loop: "grew {1} s (snd (setDefaults_loop getenv m cs s))"
proof (induction cs arbitrary: s)
  case Nil
  then show ?case by (simp add: grew_refl)
next
  case (Cons c cs)
  obtain r s1 where r: "setDefault getenv c s = (r, s1)" by force
  have 1: "grew {1} s s1" using grew_setDefault[of s getenv c] r by simp
  show ?case
  proof (cases "name c \<in> set m")
    case True
    then show ?thesis using Cons.IH by simp
  next
    case False
    show ?thesis
    proof (cases r)
      case None
      with r False have "snd (setDefaults_loop getenv m (c # cs) s) = snd (setDefaults_loop getenv m cs s1)"
        by simp
      with grew_same[OF 1 Cons.IH[of s1]] show ?thesis by simp
    next
      case (Some e)
      with r 1 False show ?thesis by simp
    qed
  qed
qed

lemma grew_setDefaults: "grew {1} s (snd (setDefaults getenv fs context s))"
proof -
  let ?m = "flagElements (Elements context)"
  obtain r s1 where r: "setDefaults_loop getenv ?m fs s = (r, s1)" by force
  have 1: "grew {1} s s1" using grew_setDefaults_loop[of s getenv ?m fs] r by simp
  have 2: "grew {1} s1 (snd (setDefaults_loop getenv (argElements (Elements context)) (arguments context) s1))"
    by (rule grew_setDefaults_loop)
  show ?thesis
    using r 1 grew_same[OF 1 2]
    by (cases r) (auto simp: setDefaults_def grew_refl)
qed

lemma grew_setValues_loop: "grew {2} s (snd (setValues_loop es S sel lc s))"
proof (induction es arbitrary: S sel lc s)
  case Nil
  then show ?case by (simp add: grew_refl split: option.splits)
next
  case (Cons e es)
  show ?case
  proof (cases e)
    case (EFlag c v)
    obtain r s1 where r: "callSet (EvSetValue (name c) v) c v s = (r, s1)" by force
    have 1: "grew {2} s s1" using grew_callSet[of "EvSetValue (name c) v" 2 s c v] r by simp
    show ?thesis
    proof (cases "name c \<in> S \<and> \<not> IsCumulative (cvalue c)")
      case True
      then show ?thesis using EFlag by (simp add: grew_refl)
    next
      case False
      show ?thesis
      proof (cases r)
        case None
        with r False EFlag have "snd (setValues_loop (e # es) S sel lc s)
           = snd (setValues_loop es (insert (name c) S) sel lc s1)" by auto
        with grew_same[OF 1 Cons.IH[of s1]] show ?thesis by simp
      next
        case (Some x)
        with r 1 False EFlag show ?thesis by auto
      qed
    qed
  next
    case (EArg c v)
    obtain r s1 where r: "callSet (EvSetValue (name c) v) c v s = (r, s1)" by force
    have 1: "grew {2} s s1" using grew_callSet[of "EvSetValue (name c) v" 2 s c v] r by simp
    show ?thesis
    proof (cases r)
      case None
      with r EArg have "snd (setValues_loop (e # es) S sel lc s)
         = snd (setValues_loop es S sel lc s1)" by simp
      with grew_same[OF 1 Cons.IH[of s1]] show ?thesis by simp
    next
      case (Some x)
      with r 1 EArg show ?thesis by simp
    qed
  next
    case (ECmd c)
    then show ?thesis using Cons.IH by simp
  qed
qed

lemma grew_setValues: "grew {2} s (snd (setValues context s))"
  by (simp add: setValues_def grew_setValues_loop)

lemma grew_callTerminate: "grew {} s (snd (callTerminate a n s))"
  by (simp add: callTerminate_def grew_logEv_none)

lemma grew_empty_trans: "grew {} s s1 \<Longrightarrow> grew {} s1 s2 \<Longrightarrow> grew {} s s2"
  using grew_trans[of "{}" s s1 "{}" s2] by simp

lemma grew_writeUsage: "grew {} s (snd (writeUsage a s))"
  unfolding writeUsage_def
  by (rule grew_empty_trans[OF grew_logEv_none grew_callTerminate]) simp

lemma grew_store: "grew {} s (s\<lparr>store := st\<rparr>)"
  by (simp add: grew_def)

lemma grew_maybeHelp: "grew {} s (snd (maybeHelp a pcx raw es s))"
proof (induction es arbitrary: s)
  case Nil
  then show ?case by (simp add: grew_refl)
next
  case (Cons e es)
  show ?case
  proof (cases e)
    case (EFlag c v)
    obtain rp st where rp: "pcx True raw (store s) = (rp, st)" by (cases "pcx True raw (store s)")
    obtain r s1 where r: "writeUsage a (s\<lparr>store := st\<rparr>) = (r, s1)" by force
    have "grew {} (s\<lparr>store := st\<rparr>) s1" using grew_writeUsage[of "s\<lparr>store := st\<rparr>" a] r by simp
    with grew_store[of s st] have 1: "grew {} s s1" by (rule grew_empty_trans)
    show ?thesis
    proof (cases "ptr c = ptr (HelpFlag a)")
      case True
      show ?thesis
      proof (cases r)
        case CbOk
        with r rp True EFlag have "snd (maybeHelp a pcx raw (e # es) s) = snd (maybeHelp a pcx raw es s1)"
          by simp
        with grew_empty_trans[OF 1 Cons.IH[of s1]] show ?thesis by simp
      next
        case (CbErr x)
        with r rp 1 True EFlag show ?thesis by simp
      next
        case (CbExit n)
        with r rp 1 True EFlag show ?thesis by simp
      qed
    next
      case False
      then show ?thesis using EFlag Cons.IH by simp
    qed
  next
    case (EArg c v)
    then show ?thesis using Cons.IH by simp
  next
    case (ECmd c)
    then show ?thesis using Cons.IH by simp
  qed
qed

lemma grew_validateRequired_loop: "grew {4} s (snd (validateRequired_loop getenv mk m cs s))"
proof (induction cs arbitrary: s)
  case Nil
  then show ?case by (simp add: grew_refl)
next
  case (Cons c cs)
  have 1: "grew {4} s (logEv (EvNeedsValue (name c)) s)" by (simp add: grew_logEv)
  show ?case
  proof (cases "name c \<in> set m")
    case True
    then show ?thesis using Cons.IH by simp
  next
    case False
    show ?thesis
    proof (cases "needsValue getenv c")
      case True
      with False 1 show ?thesis by simp
    next
      case nv: False
      with False have "snd (validateRequired_loop getenv mk m (c # cs) s)
         = snd (validateRequired_loop getenv mk m cs (logEv (EvNeedsValue (name c)) s))" by simp
      with grew_same[OF 1 Cons.IH[of "logEv (EvNeedsValue (name c)) s"]] show ?thesis by simp
    qed
  qed
qed

lemma grew_validateRequired: "grew {4} s (snd (validateRequired getenv fs context s))"
proof -
  let ?m = "flagElements (Elements context)"
  obtain r s1 where r: "validateRequired_loop getenv ErrRequiredFlag ?m fs s = (r, s1)" by force
  have 1: "grew {4} s s1" using grew_validateRequired_loop[of s getenv ErrRequiredFlag ?m fs] r by simp
  have 2: "grew {4} s1 (snd (validateRequired_loop getenv ErrRequiredArgument
      (argElements (Elements context)) (arguments context) s1))"
    by (rule grew_validateRequired_loop)
  show ?thesis
    using r 1 grew_same[OF 1 2]
    by (cases r) (auto simp: validateRequired_def)
qed

lemma grew_applyValidators_loop: "grew {5} s (snd (applyValidators_loop es s))"
proof (induction es arbitrary: s)
  case Nil
  then show ?case by (simp add: grew_refl)
next
  case (Cons e es)
  show ?case
  proof (cases e)
    case (ECmd c)
    show ?thesis
    proof (cases "cmd_validator c")
      case None
      then show ?thesis using ECmd Cons.IH by simp
    next
      case (Some f)
      obtain r s1 where r: "runCb (EvValidator (cmd_name c)) f s = (r, s1)" by force
      have 1: "grew {5} s s1" using grew_runCb[of "EvValidator (cmd_name c)" 5 s f] r by simp
      show ?thesis
      proof (cases r)
        case CbOk
        with r Some ECmd have "snd (applyValidators_loop (e # es) s) = snd (applyValidators_loop es s1)"
          by simp
        with grew_same[OF 1 Cons.IH[of s1]] show ?thesis by simp
      next
        case (CbErr x)
        with r 1 Some ECmd show ?thesis by simp
      next
        case (CbExit n)
        with r 1 Some ECmd show ?thesis by simp
      qed
    qed
  next
    case (EFlag c v)
    then show ?thesis using Cons.IH by simp
  next
    case (EArg c v)
    then show ?thesis using Cons.IH by simp
  qed
qed

lemma grew_applyValidators: "grew {5} s (snd (applyValidators a context s))"
proof -
  obtain r s1 where r: "applyValidators_loop (Elements context) s = (r, s1)" by force
  have 1: "grew {5} s s1" using grew_applyValidators_loop[of s "Elements context"] r by simp
  show ?thesis
  proof (cases r)
    case CbOk
    show ?thesis
    proof (cases "app_validator a")
      case None
      with r CbOk 1 show ?thesis by (simp add: applyValidators_def)
    next
      case (Some f)
      have 2: "grew {5} s1 (snd (runCb (EvValidator (app_Name a)) f s1))"
        by (rule grew_runCb) simp
      from r CbOk Some grew_same[OF 1 2] show ?thesis by (simp add: applyValidators_def)
    qed
  next
    case (CbErr x)
    with r 1 show ?thesis by (simp add: applyValidators_def)
  next
    case (CbExit n)
    with r 1 show ?thesis by (simp add: applyValidators_def)
  qed
qed

lemma grew_dispatchPreActions: "grew {3} s (snd (dispatchPreActions es s))"
proof (induction es arbitrary: s)
  case Nil
  then show ?case by (simp add: grew_refl)
next
  case (Cons e es)
  obtain r s1 where r: "runAll (EvPreAction (elemName e)) (elemPreActions e) s = (r, s1)" by force
  have 1: "grew {3} s s1"
    using grew_runAll[of "EvPreAction (elemName e)" 3 s "elemPreActions e"] r by simp
  show ?case
  proof (cases r)
    case CbOk
    with r have "snd (dispatchPreActions (e # es) s) = snd (dispatchPreActions es s1)" by simp
    with grew_same[OF 1 Cons.IH[of s1]] show ?thesis by simp
  next
    case (CbErr x)
    with r 1 show ?thesis by simp
  next
    case (CbExit n)
    with r 1 show ?thesis by simp
  qed
qed

lemma grew_applyPreActions: "grew {3} s (snd (applyPreActions a context d s))"
proof -
  obtain r s1 where r: "runAll (EvPreAction (app_Name a)) (app_preActions a) s = (r, s1)" by force
  have 1: "grew {3} s s1"
    using grew_runAll[of "EvPreAction (app_Name a)" 3 s "app_preActions a"] r by simp
  have 2: "grew {3} s1 (snd (dispatchPreActions (Elements context) s1))"
    by (rule grew_dispatchPreActions)
  from r 1 grew_same[OF 1 2] show ?thesis
    by (cases r) (auto simp: applyPreActions_def)
qed

lemma grew_dispatchActions: "grew {6} s (snd (dispatchActions es s))"
proof (induction es arbitrary: s)
  case Nil
  then show ?case by (simp add: grew_refl)
next
  case (Cons e es)
  obtain r s1 where r: "runAll (EvAction (elemName e)) (elemActions e) s = (r, s1)" by force
  have 1: "grew {6} s s1"
    using grew_runAll[of "EvAction (elemName e)" 6 s "elemActions e"] r by simp
  show ?case
  proof (cases r)
    case CbOk
    with r have "snd (dispatchActions (e # es) s) = snd (dispatchActions es s1)" by simp
    with grew_same[OF 1 Cons.IH[of s1]] show ?thesis by simp
  next
    case (CbErr x)
    with r 1 show ?thesis by simp
  next
    case (CbExit n)
    with r 1 show ?thesis by simp
  qed
qed

lemma grew_applyActions: "grew {6} s (snd (applyActions a context s))"
proof -
  obtain r s1 where r: "runAll (EvAction (app_Name a)) (app_actions a) s = (r, s1)" by force
  have 1: "grew {6} s s1"
    using grew_runAll[of "EvAction (app_Name a)" 6 s "app_actions a"] r by simp
  have 2: "grew {6} s1 (snd (dispatchActions (Elements context) s1))"
    by (rule grew_dispatchActions)
  from r 1 grew_same[OF 1 2] show ?thesis
    by (cases r) (auto simp: applyActions_def)
qed

lemma grew_execute: "grew {4, 5, 6} s (snd (execute a getenv fs context sel s))"
proof -
  obtain r1 s1 where r1: "validateRequired getenv fs context s = (r1, s1)" by force
  obtain r2 s2 where r2: "applyValidators a context s1 = (r2, s2)" by force
  obtain r3 s3 where r3: "applyActions a context s2 = (r3, s3)" by force
  have g1: "grew {4} s s1" using grew_validateRequired[of s getenv fs "context"] r1 by simp
  have g2: "grew {5} s1 s2" using grew_applyValidators[of s1 a "context"] r2 by simp
  have g3: "grew {6} s2 s3" using grew_applyActions[of s2 a "context"] r3 by simp
  have g12: "grew {4, 5} s s2" using grew_trans[OF g1 g2] by (simp add: insert_commute)
  have g123: "grew {4, 5, 6} s s3" using grew_trans[OF g12 g3] by (simp add: insert_commute)
  have a: "grew {4, 5, 6} s s1" using grew_mono[OF g1] by simp
  have b: "grew {4, 5, 6} s s2" using grew_mono[OF g12] by auto
  show ?thesis
    using r1 r2 r3 a b g123
    by (cases r1; cases r2; cases r3) (auto simp: execute_def Let_def)
qed

lemma grew_step:
  "grew K s s1 \<Longrightarrow> grew L s1 s2 \<Longrightarrow> \<forall>a\<in>K. \<forall>b\<in>L. a \<le> b \<Longrightarrow> K \<union> L \<subseteq> M \<Longrightarrow> grew M s s2"
  using grew_trans grew_mono by blast

subsection \<open>The order of the passes\<close>

lemma grew_Parse_after:
  "grew {2, 3, 4, 5, 6} (snd (setDefaults getenv fsD ctx s))
     (snd (Parse a getenv fsD fsR pcx (Some ctx, parseErr) s))"
proof -
  let ?A = "{2, 3, 4, 5, 6} :: nat set"
  let ?P = "Parse a getenv fsD fsR pcx (Some ctx, parseErr) s"
  obtain r1 s1 where r1: "setDefaults getenv fsD ctx s = (r1, s1)" by force
  obtain sel sve s2 where r2: "setValues ctx s1 = ((sel, sve), s2)"
    by (metis surj_pair)
  obtain r3 s3 where r3: "applyPreActions a ctx (\<not> completion a s2) s2 = (r3, s3)" by force
  obtain rc sc where rc: "callTerminate a 0 (logEv EvCompletion s3) = (rc, sc)" by force
  obtain r4 s4 where r4: "maybeHelp a pcx (rawArgs ctx) (Elements ctx) s3 = (r4, s4)" by force
  obtain r5 s5 where r5: "execute a getenv fsR ctx sel s4 = (r5, s5)" by force
  obtain r6 s6 where r6: "writeUsage a s5 = (r6, s6)" by force
  have g2: "grew {2} s1 s2" using grew_setValues[of s1 ctx] r2 by simp
  have g3: "grew {3} s2 s3" using grew_applyPreActions[of s2 a ctx "\<not> completion a s2"] r3 by simp
  have gc: "grew {} s3 sc"
    using grew_empty_trans[OF grew_logEv_none[of EvCompletion s3]
        grew_callTerminate[of "logEv EvCompletion s3" a 0]] rc
    by simp
  have g4: "grew {} s3 s4" using grew_maybeHelp[of s3 a pcx "rawArgs ctx" "Elements ctx"] r4 by simp
  have g5: "grew {4, 5, 6} s4 s5" using grew_execute[of s4 a getenv fsR ctx sel] r5 by simp
  have g6: "grew {} s5 s6" using grew_writeUsage[of s5 a] r6 by simp
  have h1: "grew ?A s1 s1" by (rule grew_refl)
  have g23: "grew {2, 3} s1 s3" by (rule grew_step[OF g2 g3]) auto
  have h3: "grew ?A s1 s3" by (rule grew_mono[OF g23]) auto
  have hc: "grew ?A s1 sc" by (rule grew_step[OF g23 gc]) auto
  have g234: "grew {2, 3} s1 s4" by (rule grew_step[OF g23 g4]) auto
  have h4: "grew ?A s1 s4" by (rule grew_mono[OF g234]) auto
  have h5: "grew ?A s1 s5" by (rule grew_step[OF g234 g5]) auto
  have h6: "grew ?A s1 s6" by (rule grew_step[OF h5 g6]) auto
  have "grew ?A s1 (snd ?P)"
  proof (cases r1)
    case (Some e)
    with r1 h1 show ?thesis by (simp add: Parse_def)
  next
    case None
    note d = None
    show ?thesis
    proof (cases "r3 = CbOk")
      case False
      with r1 d r2 r3 h3 show ?thesis
        by (cases r3) (simp_all add: Parse_def)
    next
      case True
      note p = True
      show ?thesis
      proof (cases "completion a s3")
        case True
        with r1 d r2 r3 p rc hc show ?thesis
          by (cases rc) (simp_all add: Parse_def)
      next
        case False
        note nc = False
        show ?thesis
        proof (cases "parseErr = None")
          case False
          with r1 d r2 r3 p nc h3 show ?thesis
            by (simp add: Parse_def)
        next
          case True
          note pe = True
          show ?thesis
          proof (cases "r4 = CbOk")
            case False
            with r1 d r2 r3 p nc pe r4 h4 show ?thesis
              by (cases r4) (simp_all add: Parse_def)
          next
            case True
            note mh = True
            show ?thesis
            proof (cases "\<not> EOL ctx \<or> sve \<noteq> None")
              case True
              with r1 d r2 r3 p nc pe r4 mh h4 show ?thesis
                by (auto simp add: Parse_def)
            next
              case False
              then have eol: "EOL ctx" and sv: "sve = None" by simp_all
              have P: "?P =
                (case (r5, s5) of
                    (Return command (Some ErrCommandNotSpecified), s5) \<Rightarrow>
                      (case writeUsage a s5 of
                         (CbOk, s6) \<Rightarrow> (Return command (Some ErrCommandNotSpecified), s6)
                       | (r, s6) \<Rightarrow> (failed r, s6))
                  | (out, s5) \<Rightarrow> (out, s5))"
                using r1 d r2 r3 p nc pe r4 mh eol sv r5
                by (simp add: Parse_def)
              have "snd ?P = s5 \<or> snd ?P = s6"
                unfolding P using r6
                by (simp split: outcome.splits option.splits error.splits cbres.splits)
              with h5 h6 show ?thesis by auto
            qed
          qed
        qed
      qed
    qed
  qed
  with r1 show ?thesis by simp
qed

lemma grew_Parse: "grew {1, 2, 3, 4, 5, 6} s (snd (Parse a getenv fsD fsR pcx pc s))"
proof (cases pc)
  case (Pair co parseErr)
  show ?thesis
  proof (cases co)
    case None
    with Pair show ?thesis by (simp add: Parse_def grew_refl)
  next
    case (Some ctx)
    have "grew {1, 2, 3, 4, 5, 6} s (snd (Parse a getenv fsD fsR pcx (Some ctx, parseErr) s))"
      by (rule grew_step[OF grew_setDefaults[of s getenv fsD ctx] grew_Parse_after]) auto
    with Pair Some show ?thesis by simp
  qed
qed

lemma trace_callSet: "trace (snd (callSet ev c v s)) = trace s @ [ev]"
  by (simp add: callSet_def logEv_def split: sum.splits)

lemma trace_setValues_loop:
  "\<exists>n. trace (snd (setValues_loop es S sel lc s)) = trace s @ take n (valueCalls es)"
proof (induction es arbitrary: S sel lc s)
  case Nil
  then show ?case by (simp split: option.splits)
next
  case (Cons e es)
  show ?case
  proof (cases e)
    case (EFlag c v)
    obtain r s1 where r: "callSet (EvSetValue (name c) v) c v s = (r, s1)" by force
    have t: "trace s1 = trace s @ [EvSetValue (name c) v]"
      using trace_callSet[of "EvSetValue (name c) v" c v s] r by simp
    show ?thesis
    proof (cases "name c \<in> S \<and> \<not> IsCumulative (cvalue c)")
      case True
      with EFlag have "trace (snd (setValues_loop (e # es) S sel lc s)) = trace s @ take 0 (valueCalls (e # es))"
        by simp
      then show ?thesis by blast
    next
      case False
      show ?thesis
      proof (cases r)
        case None
        from Cons.IH[of "insert (name c) S" sel lc s1] obtain n where
          n: "trace (snd (setValues_loop es (insert (name c) S) sel lc s1)) = trace s1 @ take n (valueCalls es)"
          by blast
        from r None False EFlag have "snd (setValues_loop (e # es) S sel lc s)
           = snd (setValues_loop es (insert (name c) S) sel lc s1)" by auto
        with n t EFlag have "trace (snd (setValues_loop (e # es) S sel lc s))
           = trace s @ take (Suc n) (valueCalls (e # es))" by simp
        then show ?thesis by blast
      next
        case (Some x)
        with r False EFlag t have "trace (snd (setValues_loop (e # es) S sel lc s))
           = trace s @ take (Suc 0) (valueCalls (e # es))" by auto
        then show ?thesis by blast
      qed
    qed
  next
    case (EArg c v)
    obtain r s1 where r: "callSet (EvSetValue (name c) v) c v s = (r, s1)" by force
    have t: "trace s1 = trace s @ [EvSetValue (name c) v]"
      using trace_callSet[of "EvSetValue (name c) v" c v s] r by simp
    show ?thesis
    proof (cases r)
      case None
      from Cons.IH[of S sel lc s1] obtain n where
        n: "trace (snd (setValues_loop es S sel lc s1)) = trace s1 @ take n (valueCalls es)"
        by blast
      from r None EArg have "snd (setValues_loop (e # es) S sel lc s)
         = snd (setValues_loop es S sel lc s1)" by auto
      with n t EArg have "trace (snd (setValues_loop (e # es) S sel lc s))
         = trace s @ take (Suc n) (valueCalls (e # es))" by simp
      then show ?thesis by blast
    next
      case (Some x)
      with r EArg t have "trace (snd (setValues_loop (e # es) S sel lc s))
         = trace s @ take (Suc 0) (valueCalls (e # es))" by auto
      then show ?thesis by blast
    qed
  next
    case (ECmd c)
    then show ?thesis using Cons.IH by simp
  qed
qed

text \<open>
  Claim C1, as amended. The calls one Parse makes come in the order of the passes as app.go
  runs them: setDefaults, then setValues, then the pre-actions, and only then, inside
  execute, validateRequired, the validators and the actions. setValues calls the converters
  of the matched flags and arguments in the order of the elements, up to the call that fails.
\<close>

theorem Parse_pass_order:
  "(\<exists>evs. trace (snd (Parse a getenv fsD fsR pcx pc s)) = trace s @ evs
       \<and> sorted (calls codeOrder evs))
   \<and> (\<exists>n. trace (snd (setValues context s)) = trace s @ take n (valueCalls (Elements context)))"
  using grew_Parse[of s a getenv fsD fsR pcx pc] trace_setValues_loop[of "Elements context" "{}" "[]" None s]
  by (auto simp: grew_def setValues_def)

text \<open>
  Claim C1 as stated fails: with the required flag b missing and \<^verbatim>\<open>--a=foo\<close> given, the
  converter of flag a has run and stored foo before validateRequired looks at any clause, and
  Parse then fails with ErrRequiredFlag.
\<close>

theorem Parse_pass_order_counterexample:
  "fst (Parse required_app noenv required_flags required_flags noReparse (Some required_context, None) (state0 []))
     = Return [] (Some (ErrRequiredFlag ''b''))
   \<and> store (snd (Parse required_app noenv required_flags required_flags noReparse
         (Some required_context, None) (state0 []))) 7 = VString ''foo''
   \<and> take 2 (trace (snd (Parse required_app noenv required_flags required_flags noReparse
         (Some required_context, None) (state0 []))))
       = [EvSetValue ''a'' ''foo'', EvNeedsValue ''help'']
   \<and> \<not> sorted (calls specOrder (trace (snd (Parse required_app noenv required_flags required_flags noReparse
         (Some required_context, None) (state0 [])))))"
  by code_simp

subsection \<open>The selected command\<close>

lemma repeatsAreCumulative_iff: "repeatsAreCumulative es \<longleftrightarrow> \<not> repeats {} es"
  unfolding repeatsAreCumulative_def repeats_iff by auto

lemma loop_result:
  "\<forall>e\<in>set es. accepts e \<Longrightarrow> \<not> repeats S es \<Longrightarrow>
   fst (setValues_loop es S sel lc s) =
     (case lastCmdOf lc es of
        None \<Rightarrow> (sel @ selectedNames es, None)
      | Some c \<Rightarrow> if cmd_commands c \<noteq> []
                  then ([], Some (ErrSubCommandRequired (FullCommand c)))
                  else (sel @ selectedNames es, None))"
proof (induction es arbitrary: S sel lc s)
  case Nil
  then show ?case by (simp split: option.splits)
next
  case (Cons e es)
  show ?case
  proof (cases e)
    case (EFlag c v)
    obtain r s1 where r: "callSet (EvSetValue (name c) v) c v s = (r, s1)" by force
    from Cons.prems EFlag have rn: "r = None"
      using callSet_accepts[of c v "EvSetValue (name c) v" s] r by simp
    from Cons.prems EFlag have nr: "\<not> (name c \<in> S \<and> \<not> IsCumulative (cvalue c))"
      and nr': "\<not> repeats (insert (name c) S) es" by auto
    from Cons.IH[OF _ nr', of sel lc s1] Cons.prems EFlag nr r rn show ?thesis by (auto split: option.splits)
  next
    case (EArg c v)
    obtain r s1 where r: "callSet (EvSetValue (name c) v) c v s = (r, s1)" by force
    from Cons.prems EArg have rn: "r = None"
      using callSet_accepts[of c v "EvSetValue (name c) v" s] r by simp
    from Cons.prems EArg have nr': "\<not> repeats S es" by auto
    from Cons.IH[OF _ nr', of sel lc s1] Cons.prems EArg r rn show ?thesis by (auto split: option.splits)
  next
    case (ECmd c)
    with Cons.prems have "\<forall>e\<in>set es. accepts e" "\<not> repeats S es" by auto
    from Cons.IH[OF this, of "sel @ [cmd_name c]" "Some c" s] ECmd show ?thesis by (simp split: option.splits)
  qed
qed

lemma execute_success:
  "execute a getenv fs ctx sel s = (Return cmd None, s') \<Longrightarrow> cmd = join '' '' sel"
  by (auto simp: execute_def Let_def split: prod.splits option.splits cbres.splits if_splits
      elim: failed.elims)

text \<open>
  Claim C4. Take a parse without parser error that consumed the whole command line, in which
  the defaults resolve, the converters accept the matched strings, no flag is repeated
  against its converter, the pre-actions return nil, and neither completion nor help ends the
  run. If the last matched command owns subcommands, Parse fails with ErrSubCommandRequired
  for that command. If it is a leaf reached through the matched commands, every command
  string Parse returns without error is the space-joined path of names from the root to
  that leaf.
\<close>

theorem Parse_selected_command:
  assumes last: "lastCmdOf None (Elements ctx) = Some c"
    and acc: "\<forall>e\<in>set (Elements ctx). accepts e"
    and rep: "repeatsAreCumulative (Elements ctx)"
    and D: "fst (setDefaults getenv fsD ctx s) = None"
    and nc2: "\<not> completion a (afterValues getenv fsD ctx s)"
    and P: "fst (applyPreActions a ctx True (afterValues getenv fsD ctx s)) = CbOk"
    and nc3: "\<not> completion a (afterPreActions a getenv fsD ctx s)"
    and H: "fst (maybeHelp a pcx (rawArgs ctx) (Elements ctx) (afterPreActions a getenv fsD ctx s)) = CbOk"
    and eol: "EOL ctx"
  shows "(cmd_commands c \<noteq> [] \<longrightarrow>
            fst (Parse a getenv fsD fsR pcx (Some ctx, None) s) =
              Return [] (Some (ErrSubCommandRequired (FullCommand c))))
       \<and> (cmd_commands c = [] \<and> selectedNames (Elements ctx) = cmd_parents c @ [cmd_name c] \<longrightarrow>
            (\<forall>cmd. fst (Parse a getenv fsD fsR pcx (Some ctx, None) s) = Return cmd None
                \<longrightarrow> cmd = FullCommand c))"
proof -
  define s1 where "s1 = afterDefaults getenv fsD ctx s"
  define s2 where "s2 = afterValues getenv fsD ctx s"
  define s3 where "s3 = afterPreActions a getenv fsD ctx s"
  define s4 where "s4 = snd (maybeHelp a pcx (rawArgs ctx) (Elements ctx) s3)"
  have D': "setDefaults getenv fsD ctx s = (None, s1)"
    using D by (simp add: s1_def afterDefaults_def prod_eq_iff)
  have V: "snd (setValues ctx s1) = s2" by (simp add: s1_def s2_def afterValues_def)
  have nc2': "\<not> completion a s2" using nc2 by (simp add: s2_def)
  have P': "applyPreActions a ctx True s2 = (CbOk, s3)"
    using P nc2 by (simp add: s2_def s3_def afterPreActions_def prod_eq_iff)
  have nc3': "\<not> completion a s3" using nc3 by (simp add: s3_def)
  have H': "maybeHelp a pcx (rawArgs ctx) (Elements ctx) s3 = (CbOk, s4)"
    using H by (simp add: s3_def s4_def prod_eq_iff)
  from rep have nr: "\<not> repeats {} (Elements ctx)" by (simp add: repeatsAreCumulative_iff)
  have F: "fst (setValues ctx s1) =
     (if cmd_commands c \<noteq> [] then ([], Some (ErrSubCommandRequired (FullCommand c)))
      else (selectedNames (Elements ctx), None))"
    using loop_result[OF acc nr, of "[]" None s1] last by (simp add: setValues_def)
  show ?thesis
  proof (intro conjI impI allI)
    assume nl: "cmd_commands c \<noteq> []"
    with F V have sv: "setValues ctx s1 = (([], Some (ErrSubCommandRequired (FullCommand c))), s2)"
      by (metis prod.collapse)
    show "fst (Parse a getenv fsD fsR pcx (Some ctx, None) s) =
              Return [] (Some (ErrSubCommandRequired (FullCommand c)))"
      using D' sv nc2' P' nc3' H' eol by (simp add: Parse_def)
  next
    fix cmd
    assume lf: "cmd_commands c = [] \<and> selectedNames (Elements ctx) = cmd_parents c @ [cmd_name c]"
      and R: "fst (Parse a getenv fsD fsR pcx (Some ctx, None) s) = Return cmd None"
    from lf F V have sv: "setValues ctx s1 = ((selectedNames (Elements ctx), None), s2)"
      by (metis prod.collapse)
    obtain r5 s5 where r5: "execute a getenv fsR ctx (selectedNames (Elements ctx)) s4 = (r5, s5)"
      by force
    have "Parse a getenv fsD fsR pcx (Some ctx, None) s =
       (case (r5, s5) of
          (Return command (Some ErrCommandNotSpecified), s5) \<Rightarrow>
             (case writeUsage a s5 of
                (CbOk, s6) \<Rightarrow> (Return command (Some ErrCommandNotSpecified), s6)
              | (r, s6) \<Rightarrow> (failed r, s6))
        | (out, s5) \<Rightarrow> (out, s5))"
      using D' sv nc2' P' nc3' H' eol r5 by (simp add: Parse_def)
    with R have "r5 = Return cmd None"
      by (auto split: outcome.splits option.splits error.splits cbres.splits prod.splits
          elim: failed.elims)
    with r5 have "cmd = join '' '' (selectedNames (Elements ctx))"
      using execute_success by blast
    with lf show "cmd = FullCommand c" by (simp add: FullCommand_def)
  qed
qed

theorem Parse_selected_command_witness:
  "fst (Parse selected_app noenv (builtinFlags False) (builtinFlags False) noReparse (Some context_c0, None) (state0 []))
     = Return [] (Some (ErrSubCommandRequired ''c0''))
   \<and> fst (Parse selected_app noenv (builtinFlags False) (builtinFlags False) noReparse
         (Some context_c0_c1, None) (state0 [])) = Return ''c0 c1'' None"
proof -
  let ?fs = "builtinFlags False"
  let ?s = "state0 []"
  have a0: "\<forall>e\<in>set (Elements context_c0). accepts e"
    and a1: "\<forall>e\<in>set (Elements context_c0_c1). accepts e"
    by (simp_all add: context_c0_def context_c0_c1_def emptyContext_def)
  have r0: "repeatsAreCumulative (Elements context_c0)"
    and r1: "repeatsAreCumulative (Elements context_c0_c1)"
    by (simp_all add: repeatsAreCumulative_def context_c0_def context_c0_c1_def emptyContext_def)
  have l0: "lastCmdOf None (Elements context_c0) = Some cmd_c0"
    and l1: "lastCmdOf None (Elements context_c0_c1) = Some cmd_c1"
    by (simp_all add: context_c0_def context_c0_c1_def emptyContext_def)
  have d0: "fst (setDefaults noenv ?fs context_c0 ?s) = None"
    and d1: "fst (setDefaults noenv ?fs context_c0_c1 ?s) = None" by code_simp+
  have c0: "\<not> completion selected_app (afterValues noenv ?fs context_c0 ?s)"
    and c1: "\<not> completion selected_app (afterValues noenv ?fs context_c0_c1 ?s)" by code_simp+
  have p0: "fst (applyPreActions selected_app context_c0 True (afterValues noenv ?fs context_c0 ?s)) = CbOk"
    and p1: "fst (applyPreActions selected_app context_c0_c1 True (afterValues noenv ?fs context_c0_c1 ?s)) = CbOk"
    by code_simp+
  have q0: "\<not> completion selected_app (afterPreActions selected_app noenv ?fs context_c0 ?s)"
    and q1: "\<not> completion selected_app (afterPreActions selected_app noenv ?fs context_c0_c1 ?s)"
    by code_simp+
  have h0: "fst (maybeHelp selected_app noReparse (rawArgs context_c0) (Elements context_c0)
        (afterPreActions selected_app noenv ?fs context_c0 ?s)) = CbOk"
    and h1: "fst (maybeHelp selected_app noReparse (rawArgs context_c0_c1) (Elements context_c0_c1)
        (afterPreActions selected_app noenv ?fs context_c0_c1 ?s)) = CbOk" by code_simp+
  have e0: "EOL context_c0" and e1: "EOL context_c0_c1" by code_simp+
  have n0: "cmd_commands cmd_c0 \<noteq> []" and f0: "FullCommand cmd_c0 = ''c0''" by code_simp+
  have n1: "cmd_commands cmd_c1 = [] \<and>
      selectedNames (Elements context_c0_c1) = cmd_parents cmd_c1 @ [cmd_name cmd_c1]"
    and f1: "FullCommand cmd_c1 = ''c0 c1''" by code_simp+
  have c: "fst (Parse selected_app noenv ?fs ?fs noReparse (Some context_c0_c1, None) ?s) = Return ''c0 c1'' None"
    by code_simp
  from Parse_selected_command[OF l0 a0 r0 d0 c0 p0 q0 h0 e0, of ?fs] n0 f0
  have A: "fst (Parse selected_app noenv ?fs ?fs noReparse (Some context_c0, None) ?s)
     = Return [] (Some (ErrSubCommandRequired ''c0''))" by simp
  from Parse_selected_command[OF l1 a1 r1 d1 c1 p1 q1 h1 e1, of ?fs] n1 f1 c
  have B: "''c0 c1'' = FullCommand cmd_c1" by blast
  from A B c show ?thesis by simp
qed

subsection \<open>setDefaults and the help flag\<close>

lemma flagElements_mem: "EFlag c v \<in> set es \<Longrightarrow> name c \<in> set (flagElements es)"
  by (induction es rule: flagElements.induct) auto

text \<open>
  Claim C10, as amended. When the matched elements include a flag named help (the name New
  gives the application's help flag), the pass setDefaults returns nil at once: it applies
  no default-resolution, so within this pass no clause receives an explicit default or the
  value of its environment variable, and every variable is left as it was.
\<close>

theorem setDefaults_help:
  assumes "EFlag f v \<in> set (Elements context)" and "name f = ''help''"
  shows "setDefaults getenv fs context s = (None, s)"
proof -
  from assms have "''help'' \<in> set (flagElements (Elements context))"
    using flagElements_mem by fastforce
  then show ?thesis by (simp add: setDefaults_def)
qed

theorem setDefaults_help_witness:
  "setDefaults noenv help_flags help_context (state0 []) = (None, state0 [])"
proof -
  have 1: "EFlag (HelpFlag newTestApp) ''true'' \<in> set (Elements help_context)"
    by (simp add: help_context_def emptyContext_def)
  have 2: "name (HelpFlag newTestApp) = ''help''"
    by (simp add: newTestApp_def NewApp_def builtinFlag_def newClause_def)
  from setDefaults_help[OF 1 2] show ?thesis .
qed

text \<open>
  Claim C10 as stated fails twice. Over the whole invocation the targets of unmatched clauses
  do not stay unchanged: for \<^verbatim>\<open>--help\<close> the argument x, matched by no element, holds its
  default dflt when Parse ends, stored by the parser that ParseContext and maybeHelp run.
  And setDefaults looks for the name help, not for the application's help flag: with
  HelpFlag replaced by a flag named h and that flag matched, setDefaults gives the unmatched
  flag ttl its default.
\<close>

theorem setDefaults_help_counterexample:
  "flagElements (Elements help_arg_context) = [name (HelpFlag newTestApp)]
   \<and> argElements (Elements help_arg_context) = []
   \<and> map target (arguments help_arg_context) = [7]
   \<and> store (state0 []) 7 = VString []
   \<and> store (snd (ParseArgs newTestApp noenv (builtinFlags False) (builtinFlags False)
         help_arg_reparse [''--help''] (state0 []))) 7 = VString ''dflt''
   \<and> flagElements (Elements replaced_help_context) = [name (HelpFlag replaced_help_app)]
   \<and> store (snd (setDefaults noenv help_flags replaced_help_context (state0 []))) 7 = VString ''5s''"
  by code_simp

subsection \<open>Required clauses and environment variables\<close>


lemma required_loop_silent:
  "distinct (map name cs) \<Longrightarrow> f \<in> set cs \<Longrightarrow> \<not> needsValue getenv f \<Longrightarrow>
   fst (validateRequired_loop getenv ErrRequiredFlag m cs s) \<noteq> Some (ErrRequiredFlag (name f))"
proof (induction cs arbitrary: s)
  case Nil
  then show ?case by simp
next
  case (Cons c cs)
  show ?case
  proof (cases "c = f")
    case True
    have "name f \<notin> name ` set cs" using Cons.prems(1) True by simp
    have rest: "fst (validateRequired_loop getenv ErrRequiredFlag m cs s') \<noteq> Some (ErrRequiredFlag (name f))" for s'
    proof
      assume a: "fst (validateRequired_loop getenv ErrRequiredFlag m cs s') = Some (ErrRequiredFlag (name f))"
      have "\<And>s. fst (validateRequired_loop getenv ErrRequiredFlag m cs s) = Some (ErrRequiredFlag x) \<Longrightarrow> x \<in> name ` set cs" for x
      proof (induction cs)
        case Nil
        then show ?case by simp
      next
        case (Cons d ds)
        then show ?case by (auto split: if_splits)
      qed
      with a \<open>name f \<notin> name ` set cs\<close> show False by blast
    qed
    with True Cons.prems(3) show ?thesis by simp
  next
    case False
    with Cons.prems have fin: "f \<in> set cs" and d: "distinct (map name cs)" by auto
    then have "name c \<noteq> name f" using Cons.prems(1) by force
    with Cons.IH[OF d fin Cons.prems(3)] show ?thesis by simp
  qed
qed



lemma required_loop_none:
  "\<forall>c\<in>set cs. \<not> needsValue getenv c \<Longrightarrow> fst (validateRequired_loop getenv mk m cs s) = None"
  by (induction cs arbitrary: s) auto


subsection \<open>What the passes do to one variable\<close>







































subsection \<open>Structural validation\<close>

lemma inLong_iff: "inLong flags n \<longleftrightarrow> (\<exists>other \<in> set flags. name other = n)"
  by (auto simp: inLong_def)

lemma inShort_iff: "c \<noteq> [] \<Longrightarrow> inShort flags c \<longleftrightarrow> (\<exists>other \<in> set flags. shorthand other = c)"
  by (auto simp: inShort_def)

lemma clash_iff:
  "(shorthand flag \<noteq> [] \<and> inShort flags (shorthand flag)) \<or> inLong flags (name flag) \<longleftrightarrow>
   (\<exists>other \<in> set flags.
      name other = name flag \<or> (shorthand flag \<noteq> [] \<and> shorthand other = shorthand flag))"
proof (cases "shorthand flag = []")
  case True
  then show ?thesis by (auto simp: inLong_iff)
next
  case False
  then show ?thesis using inShort_iff[OF False, of flags] by (auto simp: inLong_iff)
qed

lemma checkFlags_clash:
  "checkFlags flags cur \<noteq> None \<longleftrightarrow>
   (\<exists>flag \<in> set cur. (shorthand flag \<noteq> [] \<and> inShort flags (shorthand flag)) \<or> inLong flags (name flag))"
  by (induction cur) auto

lemma checkFlags_iff:
  "checkFlags flags cur \<noteq> None \<longleftrightarrow>
   (\<exists>flag \<in> set cur. \<exists>other \<in> set flags.
      name other = name flag \<or> (shorthand flag \<noteq> [] \<and> shorthand other = shorthand flag))"
  unfolding checkFlags_clash clash_iff ..

lemma checkGroups_iff:
  "checkGroups gs cur \<noteq> None \<longleftrightarrow>
   (\<exists>flags \<in> set gs. \<exists>flag \<in> set cur. \<exists>other \<in> set flags.
      name other = name flag \<or> (shorthand flag \<noteq> [] \<and> shorthand other = shorthand flag))"
proof (induction gs)
  case Nil
  then show ?case by simp
next
  case (Cons g gs)
  have "checkGroups (g # gs) cur \<noteq> None \<longleftrightarrow> checkFlags g cur \<noteq> None \<or> checkGroups gs cur \<noteq> None"
    by (cases "checkFlags g cur") simp_all
  then show ?case unfolding Cons.IH checkFlags_iff by simp
qed

lemma check_iff:
  "(checkDuplicateFlags c gs \<noteq> None \<longleftrightarrow> (\<exists>node \<in> set (nodes gs c). duplicated node))"
  "(checkSubcommands cs gs \<noteq> None \<longleftrightarrow> (\<exists>node \<in> set (nodesOf gs cs). duplicated node))"
proof (induction c gs and cs gs rule: checkDuplicateFlags_checkSubcommands.induct)
  case (1 p n ps flagOrder args commandOrder v pre act flagGroups)
  let ?c = "CmdClause p n ps flagOrder args commandOrder v pre act"
  have d: "duplicated (flagGroups, ?c) \<longleftrightarrow> checkGroups flagGroups flagOrder \<noteq> None"
    unfolding checkGroups_iff duplicated_def by simp
  show ?case
  proof (cases "checkGroups flagGroups flagOrder")
    case None
    with 1 d show ?thesis by simp
  next
    case (Some e)
    with d show ?thesis by simp
  qed
next
  case (2 flagGroups)
  then show ?case by simp
next
  case (3 subcmd rest flagGroups)
  show ?case
  proof (cases "checkDuplicateFlags subcmd flagGroups")
    case None
    with 3 show ?thesis by auto
  next
    case (Some e)
    with 3 show ?thesis by auto
  qed
qed

lemma init_initialized: "initialized a \<Longrightarrow> init hc gi a = (None, a)"
  by (simp add: init_def)

lemma init_success: "fst (init hc gi a) = None \<Longrightarrow> initialized (snd (init hc gi a))"
  by (auto simp: init_def Let_def split: if_splits option.splits)

lemma init_mix:
  "\<not> initialized a \<Longrightarrow> app_commands a \<noteq> [] \<Longrightarrow> app_args a \<noteq> [] \<Longrightarrow> \<exists>e. fst (init hc gi a) = Some e"
  by (simp add: init_def)

lemma init_duplicated:
  assumes "\<not> initialized a" "\<exists>node \<in> set (nodesOf [app_flagOrder a] (app_commands a)). duplicated node"
  shows "\<exists>e. fst (init hc gi a) = Some e"
proof -
  from assms(2) have ne: "app_commands a \<noteq> []" by auto
  from assms(2) have "\<exists>node \<in> set (nodesOf [app_flagOrder a] (hc # app_commands a)). duplicated node"
    by auto
  then have "checkSubcommands (hc # app_commands a) [app_flagOrder a] \<noteq> None"
    using check_iff(2) by blast
  then obtain e where "checkSubcommands (hc # app_commands a) [app_flagOrder a] = Some e" by blast
  with assms(1) ne show ?thesis
    by (auto simp: init_def Let_def split: option.splits)
qed

lemma init_accepts:
  assumes "\<not> initialized a" "\<not> (app_commands a \<noteq> [] \<and> app_args a \<noteq> [])"
    and "gi = okInits"
    and "\<not> (\<exists>node \<in> set (nodesOf [app_flagOrder a] (if app_commands a \<noteq> [] then hc # app_commands a else [])).
            duplicated node)"
  shows "fst (init hc gi a) = None"
proof -
  from assms(4) have "checkSubcommands (if app_commands a \<noteq> [] then hc # app_commands a else [])
     [app_flagOrder a] = None"
    using check_iff(2) by blast
  with assms(1,2,3) show ?thesis
    by (auto simp: init_def Let_def okInits_def split: option.splits if_splits)
qed

lemma checkFlags_kind:
  "checkFlags flags cur = Some e \<Longrightarrow>
   \<exists>x. e = ErrOther (''duplicate short flag -'' @ x) \<or> e = ErrOther (''duplicate long flag --'' @ x)"
  by (induction cur) (auto split: if_splits)

lemma checkGroups_kind:
  "checkGroups gs cur = Some e \<Longrightarrow>
   \<exists>x. e = ErrOther (''duplicate short flag -'' @ x) \<or> e = ErrOther (''duplicate long flag --'' @ x)"
proof (induction gs)
  case Nil
  then show ?case by simp
next
  case (Cons g gs)
  show ?case
  proof (cases "checkFlags g cur")
    case None
    with Cons show ?thesis by simp
  next
    case (Some x)
    with Cons.prems have "checkFlags g cur = Some e" by simp
    then show ?thesis by (rule checkFlags_kind)
  qed
qed

lemma check_kind:
  "checkDuplicateFlags c gs = Some e \<Longrightarrow>
   \<exists>x. e = ErrOther (''duplicate short flag -'' @ x) \<or> e = ErrOther (''duplicate long flag --'' @ x)"
  "checkSubcommands cs gs = Some e \<Longrightarrow>
   \<exists>x. e = ErrOther (''duplicate short flag -'' @ x) \<or> e = ErrOther (''duplicate long flag --'' @ x)"
proof (induction c gs and cs gs rule: checkDuplicateFlags_checkSubcommands.induct)
  case (1 p n ps flagOrder args commandOrder v pre act flagGroups)
  show ?case
  proof (cases "checkGroups flagGroups flagOrder")
    case None
    with 1 show ?thesis by simp
  next
    case (Some x)
    with 1(2) have "checkGroups flagGroups flagOrder = Some e" by simp
    then show ?thesis by (rule checkGroups_kind)
  qed
next
  case (2 flagGroups)
  then show ?case by simp
next
  case (3 subcmd rest flagGroups)
  show ?case
  proof (cases "checkDuplicateFlags subcmd flagGroups")
    case None
    with 3 show ?thesis by simp
  next
    case (Some x)
    with 3 show ?thesis by simp
  qed
qed

lemma init_duplicate_kind:
  assumes "\<not> initialized a" "\<not> (app_commands a \<noteq> [] \<and> app_args a \<noteq> [])" "gi = okInits"
    and "fst (init hc gi a) = Some e"
  shows "\<exists>x. e = ErrOther (''duplicate short flag -'' @ x) \<or> e = ErrOther (''duplicate long flag --'' @ x)"
proof -
  let ?cs = "if app_commands a \<noteq> [] then hc # app_commands a else []"
  from assms have "checkSubcommands ?cs [app_flagOrder a] = Some e"
    by (auto simp: init_def Let_def okInits_def split: option.splits if_splits)
  then show ?thesis by (rule check_kind(2))
qed

lemma parseContext_error:
  "fst (init hc gi a) = Some e \<Longrightarrow>
   fst (parseContext hc gi parser a ign args st) = ((None, Some e), st)"
  by (auto simp: parseContext_def split: prod.splits option.splits)

lemma ParseArgs_init_error:
  assumes "fst (init hc gi a) = Some e"
  shows "ParseArgs a getenv fsD fsR (\<lambda>ign args st. fst (parseContext hc gi parser a ign args st)) args s
           = (Return [] (Some e), s)"
  using parseContext_error[OF assms, of parser False args "store s"]
  by (simp add: ParseArgs_def Parse_def)

text \<open>
  Claim C8. parseContext runs init before the tokenizer and the parser. For an application
  that is not yet initialised, init refuses top-level arguments together with top-level
  commands, and a flag of a command whose long name, or whose short character, is also that
  of a flag of the application or of an ancestor command: Parse then returns the error for
  every command line, the parser does not run and no variable is written. When the other
  validations find nothing, the error of a duplicate names the duplicated flag, and init
  succeeds exactly when there is neither mix nor duplicate. A successful init sets
  initialized, and an initialised application is not validated again: init returns nil at
  once, whatever the validations would find.
\<close>

theorem init_structural_validation:
  "(\<not> initialized a \<and> app_commands a \<noteq> [] \<and> app_args a \<noteq> [] \<longrightarrow>
      (\<forall>args. ParseArgs a getenv fsD fsR
                 (\<lambda>ign args st. fst (parseContext hc gi parser a ign args st)) args s
               = (Return [] (Some (ErrOther (''can'' @ [CHR 0x27] @
                    ''t mix top-level Arg()s with Command()s''))), s)))
   \<and> (\<not> initialized a \<and>
        (\<exists>node \<in> set (nodesOf [app_flagOrder a] (app_commands a)). duplicated node) \<longrightarrow>
      (\<exists>e. fst (init hc gi a) = Some e
         \<and> (\<forall>args. ParseArgs a getenv fsD fsR
                 (\<lambda>ign args st. fst (parseContext hc gi parser a ign args st)) args s
               = (Return [] (Some e), s))))
   \<and> (\<not> initialized a \<and> \<not> (app_commands a \<noteq> [] \<and> app_args a \<noteq> []) \<and> gi = okInits \<longrightarrow>
        (fst (init hc gi a) = None \<longleftrightarrow>
           \<not> (\<exists>node \<in> set (nodesOf [app_flagOrder a]
                 (if app_commands a \<noteq> [] then hc # app_commands a else [])). duplicated node))
        \<and> (\<forall>e. fst (init hc gi a) = Some e \<longrightarrow>
             (\<exists>x. e = ErrOther (''duplicate short flag -'' @ x)
                \<or> e = ErrOther (''duplicate long flag --'' @ x))))
   \<and> (fst (init hc gi a) = None \<longrightarrow>
        initialized (snd (init hc gi a))
        \<and> init hc' gi' (snd (init hc gi a)) = (None, snd (init hc gi a)))
   \<and> (initialized a \<longrightarrow> init hc gi a = (None, a))"
proof (intro conjI impI allI)
  fix args
  assume "\<not> initialized a \<and> app_commands a \<noteq> [] \<and> app_args a \<noteq> []"
  then have "fst (init hc gi a) = Some (ErrOther (''can'' @ [CHR 0x27] @
                    ''t mix top-level Arg()s with Command()s''))"
    by (simp add: init_def)
  then show "ParseArgs a getenv fsD fsR
                 (\<lambda>ign args st. fst (parseContext hc gi parser a ign args st)) args s
               = (Return [] (Some (ErrOther (''can'' @ [CHR 0x27] @
                    ''t mix top-level Arg()s with Command()s''))), s)"
    by (rule ParseArgs_init_error)
next
  assume "\<not> initialized a \<and>
        (\<exists>node \<in> set (nodesOf [app_flagOrder a] (app_commands a)). duplicated node)"
  then obtain e where e: "fst (init hc gi a) = Some e" using init_duplicated by blast
  have "\<forall>args. ParseArgs a getenv fsD fsR
                 (\<lambda>ign args st. fst (parseContext hc gi parser a ign args st)) args s
               = (Return [] (Some e), s)"
    using ParseArgs_init_error[OF e] by blast
  with e show "\<exists>e. fst (init hc gi a) = Some e
         \<and> (\<forall>args. ParseArgs a getenv fsD fsR
                 (\<lambda>ign args st. fst (parseContext hc gi parser a ign args st)) args s
               = (Return [] (Some e), s))" by blast
next
  assume a: "\<not> initialized a \<and> \<not> (app_commands a \<noteq> [] \<and> app_args a \<noteq> []) \<and> gi = okInits"
  let ?cs = "if app_commands a \<noteq> [] then hc # app_commands a else []"
  from a have "fst (init hc gi a) = checkSubcommands ?cs [app_flagOrder a]"
    by (auto simp: init_def Let_def okInits_def split: option.splits if_splits)
  moreover have "checkSubcommands ?cs [app_flagOrder a] = None \<longleftrightarrow>
           \<not> (\<exists>node \<in> set (nodesOf [app_flagOrder a] ?cs). duplicated node)"
    using check_iff(2)[of ?cs "[app_flagOrder a]"] by blast
  ultimately show "fst (init hc gi a) = None \<longleftrightarrow>
           \<not> (\<exists>node \<in> set (nodesOf [app_flagOrder a] ?cs). duplicated node)"
    by (simp only:)
next
  fix e
  assume a: "\<not> initialized a \<and> \<not> (app_commands a \<noteq> [] \<and> app_args a \<noteq> []) \<and> gi = okInits"
    and e: "fst (init hc gi a) = Some e"
  from a have 1: "\<not> initialized a" and 2: "\<not> (app_commands a \<noteq> [] \<and> app_args a \<noteq> [])"
    and 3: "gi = okInits" by simp_all
  show "\<exists>x. e = ErrOther (''duplicate short flag -'' @ x)
                \<or> e = ErrOther (''duplicate long flag --'' @ x)"
    by (rule init_duplicate_kind[OF 1 2 3 e])
next
  assume a: "fst (init hc gi a) = None"
  then show i: "initialized (snd (init hc gi a))" by (rule init_success)
  then show "init hc' gi' (snd (init hc gi a)) = (None, snd (init hc gi a))"
    by (rule init_initialized)
next
  assume "initialized a"
  then show "init hc gi a = (None, a)" by (rule init_initialized)
qed

theorem init_structural_validation_witness:
  "(\<forall>args. ParseArgs mix_app noenv [] []
        (\<lambda>ign args st. fst (parseContext cmd_help okInits noParser mix_app ign args st)) args (state0 [])
      = (Return [] (Some (ErrOther (''can'' @ [CHR 0x27] @ ''t mix top-level Arg()s with Command()s''))),
         state0 []))
   \<and> (\<forall>args. ParseArgs dup_app noenv [] []
        (\<lambda>ign args st. fst (parseContext cmd_help okInits noParser dup_app ign args st)) args (state0 [])
      = (Return [] (Some (ErrOther ''duplicate long flag --a'')), state0 []))
   \<and> fst (init cmd_help okInits valid_app) = None
   \<and> initialized (snd (init cmd_help okInits valid_app))
   \<and> init cmd_help okInits (snd (init cmd_help okInits dup_app)) \<noteq>
       (None, snd (init cmd_help okInits dup_app))
   \<and> init cmd_help okInits ((snd (init cmd_help okInits dup_app))\<lparr>initialized := True\<rparr>) =
       (None, (snd (init cmd_help okInits dup_app))\<lparr>initialized := True\<rparr>)"
proof -
  have m: "\<not> initialized mix_app \<and> app_commands mix_app \<noteq> [] \<and> app_args mix_app \<noteq> []"
    by code_simp
  have d: "\<not> initialized dup_app \<and>
        (\<exists>node \<in> set (nodesOf [app_flagOrder dup_app] (app_commands dup_app)). duplicated node)"
    by code_simp
  have v: "\<not> initialized valid_app \<and> \<not> (app_commands valid_app \<noteq> [] \<and> app_args valid_app \<noteq> [])
       \<and> okInits = okInits" by code_simp
  have nd: "\<not> (\<exists>node \<in> set (nodesOf [app_flagOrder valid_app]
                 (if app_commands valid_app \<noteq> [] then cmd_help # app_commands valid_app else [])).
              duplicated node)" by code_simp
  have e: "fst (init cmd_help okInits dup_app) = Some (ErrOther ''duplicate long flag --a'')"
    by code_simp
  have i: "initialized ((snd (init cmd_help okInits dup_app))\<lparr>initialized := True\<rparr>)" by simp
  have r: "fst (init cmd_help okInits (snd (init cmd_help okInits dup_app))) \<noteq> None" by code_simp
  note M = init_structural_validation[of mix_app noenv "[]" "[]" cmd_help okInits noParser "state0 []"]
  note D = init_structural_validation[of dup_app noenv "[]" "[]" cmd_help okInits noParser "state0 []"]
  note V = init_structural_validation[of valid_app noenv "[]" "[]" cmd_help okInits noParser "state0 []"
      cmd_help okInits]
  note I = init_structural_validation[of "(snd (init cmd_help okInits dup_app))\<lparr>initialized := True\<rparr>"
      noenv "[]" "[]" cmd_help okInits noParser "state0 []"]
  have 1: "\<forall>args. ParseArgs mix_app noenv [] []
        (\<lambda>ign args st. fst (parseContext cmd_help okInits noParser mix_app ign args st)) args (state0 [])
      = (Return [] (Some (ErrOther (''can'' @ [CHR 0x27] @ ''t mix top-level Arg()s with Command()s''))),
         state0 [])"
    by (rule M[THEN conjunct1, THEN mp, OF m])
  from D[THEN conjunct2, THEN conjunct1, THEN mp, OF d] e
  have 2: "\<forall>args. ParseArgs dup_app noenv [] []
        (\<lambda>ign args st. fst (parseContext cmd_help okInits noParser dup_app ign args st)) args (state0 [])
      = (Return [] (Some (ErrOther ''duplicate long flag --a'')), state0 [])"
    by (elim exE conjE) simp
  from V[THEN conjunct2, THEN conjunct2, THEN conjunct1, THEN mp, OF v, THEN conjunct1] nd
  have 3: "fst (init cmd_help okInits valid_app) = None" by (rule iffD2)
  from V[THEN conjunct2, THEN conjunct2, THEN conjunct2, THEN conjunct1, THEN mp, OF 3]
  have 4: "initialized (snd (init cmd_help okInits valid_app))" by (rule conjunct1)
  from r have 5: "init cmd_help okInits (snd (init cmd_help okInits dup_app)) \<noteq>
       (None, snd (init cmd_help okInits dup_app))" by auto
  have 6: "init cmd_help okInits ((snd (init cmd_help okInits dup_app))\<lparr>initialized := True\<rparr>) =
       (None, (snd (init cmd_help okInits dup_app))\<lparr>initialized := True\<rparr>)"
    by (rule I[THEN conjunct2, THEN conjunct2, THEN conjunct2, THEN conjunct2, THEN mp, OF i])
  from 1 2 3 4 5 6 show ?thesis by (intro conjI)
qed

end
